theory Spec2Isabelle
  imports Main
begin

section \<open>Validation results and field-path filtering\<close>

text \<open>
  The validator of the schema library returns either \<open>true\<close> or an ordered array of
  error records. Only the \<open>field\<close> of a record is inspected by the hook; \<open>type\<close> and
  \<open>message\<close> are carried along.
\<close>

record ValidationError =
  type :: string
  field :: string
  message :: string

datatype validation_outcome = Valid | Errors "ValidationError list"

text \<open>\<open>s.startsWith(p)\<close> on strings.\<close>

fun startsWith :: "string \<Rightarrow> string \<Rightarrow> bool" where
  "startsWith s [] = True"
| "startsWith [] (p # ps) = False"
| "startsWith (c # cs) (p # ps) = (c = p \<and> startsWith cs ps)"

text \<open>
  The body of \<open>findErrors\<close>, applied to the outcome \<open>all\<close> of \<open>errors()\<close>. The
  optional argument is \<open>None\<close> when omitted; \<open>!prop\<close> holds for an omitted and for an
  empty string. \<open>e.field && ...\<close> is the truthiness test of a string: it is non-empty.
\<close>

definition field_matches :: "string \<Rightarrow> ValidationError \<Rightarrow> bool" where
  "field_matches prop e =
     (field e \<noteq> [] \<and>
      (field e = prop \<or> startsWith (field e) (prop @ ''.'') \<or> startsWith (field e) (prop @ ''['')))"

definition findErrors_in :: "validation_outcome \<Rightarrow> string option \<Rightarrow> ValidationError list" where
  "findErrors_in all prop =
     (case all of
        Valid \<Rightarrow> []
      | Errors es \<Rightarrow>
          (case prop of
             None \<Rightarrow> es
           | Some p \<Rightarrow> if p = [] then es else filter (field_matches p) es))"

section \<open>JavaScript values, objects and the heap\<close>

text \<open>
  The snapshot is a graph of plain objects and arrays held by reference. A value is a
  primitive, a reference to a heap object, or a function (a native method, named).
  Numbers are integers here; objects with accessors or a callable \<open>toJSON\<close> (dates)
  are not part of the heap model.
\<close>

type_synonym addr = nat
type_synonym fid = string

datatype val = Undefined | Null | Bool bool | Num int | Str string | Ref addr | Fun fid

text \<open>
  A plain object holds its own properties in enumeration order; an array holds its
  elements (a hole reads as \<open>undefined\<close>) and its named own properties.
\<close>

datatype obj = PlainObj "(string \<times> val) list" | ArrayObj "val list" "(string \<times> val) list"

type_synonym heap = "obj list"

datatype error = TypeError | SyntaxError | RangeError | Thrown val | Unmodelled

definition lookup :: "heap \<Rightarrow> addr \<Rightarrow> obj option" where
  "lookup h a = (if a < length h then Some (h ! a) else None)"

subsection \<open>Property keys\<close>

text \<open>
  A key is a string. A canonical decimal numeral below \<open>2^32 - 1\<close> is an array index:
  it addresses an array element, and own keys that are array indices are enumerated
  first, in ascending order, before the other keys in creation order.
\<close>

definition digit_val :: "char \<Rightarrow> nat option" where
  "digit_val c = (let n = (of_char c :: nat) in if 48 \<le> n \<and> n \<le> 57 then Some (n - 48) else None)"

fun decimal :: "nat \<Rightarrow> string \<Rightarrow> nat option" where
  "decimal acc [] = Some acc"
| "decimal acc (c # cs) =
     (case digit_val c of None \<Rightarrow> None | Some d \<Rightarrow> decimal (10 * acc + d) cs)"

definition array_index :: "string \<Rightarrow> nat option" where
  "array_index s =
     (if s = [] \<or> (hd s = CHR ''0'' \<and> tl s \<noteq> []) then None
      else case decimal 0 s of
             None \<Rightarrow> None
           | Some n \<Rightarrow> if n < 2 ^ 32 - 1 then Some n else None)"

fun replace_prop :: "string \<Rightarrow> 'v \<Rightarrow> (string \<times> 'v) list \<Rightarrow> (string \<times> 'v) list" where
  "replace_prop k v [] = []"
| "replace_prop k v ((k', v') # ps) =
     (if k' = k then (k, v) # ps else (k', v') # replace_prop k v ps)"

fun insert_index :: "nat \<Rightarrow> string \<Rightarrow> 'v \<Rightarrow> (string \<times> 'v) list \<Rightarrow> (string \<times> 'v) list" where
  "insert_index n k v [] = [(k, v)]"
| "insert_index n k v ((k', v') # ps) =
     (case array_index k' of
        Some m \<Rightarrow> if m < n then (k', v') # insert_index n k v ps else (k, v) # (k', v') # ps
      | None \<Rightarrow> (k, v) # (k', v') # ps)"

text \<open>Creating or overwriting an own data property.\<close>

definition define_prop :: "string \<Rightarrow> 'v \<Rightarrow> (string \<times> 'v) list \<Rightarrow> (string \<times> 'v) list" where
  "define_prop k v ps =
     (if k \<in> fst ` set ps then replace_prop k v ps
      else case array_index k of
             Some n \<Rightarrow> insert_index n k v ps
           | None \<Rightarrow> ps @ [(k, v)])"

subsection \<open>Reading and writing a property of a raw object\<close>

text \<open>
  Inherited properties (the methods of \<open>Object.prototype\<close> and \<open>Array.prototype\<close>),
  the behaviour of native functions (a call returns the heap it leaves behind and
  either the exception it throws or its result) and the schema compiler of the
  validation library are not code of the hook; they are parameters of the model.
\<close>

record env =
  objectProto :: "string \<Rightarrow> val"
  arrayProto :: "string \<Rightarrow> val"
  call :: "fid \<Rightarrow> heap \<Rightarrow> addr \<Rightarrow> val list \<Rightarrow> heap \<times> (error + val)"
  compile :: "heap \<Rightarrow> val \<Rightarrow> (heap \<Rightarrow> val \<Rightarrow> validation_outcome)"

text \<open>\<open>target[prop]\<close> as an expression.\<close>

definition js_get :: "env \<Rightarrow> heap \<Rightarrow> addr \<Rightarrow> string \<Rightarrow> val" where
  "js_get E h a prop =
     (case lookup h a of
        None \<Rightarrow> Undefined
      | Some (PlainObj ps) \<Rightarrow>
          (case map_of ps prop of Some v \<Rightarrow> v | None \<Rightarrow> objectProto E prop)
      | Some (ArrayObj es xs) \<Rightarrow>
          (case array_index prop of
             Some i \<Rightarrow> if i < length es then es ! i else arrayProto E prop
           | None \<Rightarrow>
               if prop = ''length'' then Num (int (length es))
               else case map_of xs prop of Some v \<Rightarrow> v | None \<Rightarrow> arrayProto E prop))"

text \<open>
  Assigning to \<open>length\<close> of an array converts the value to a number; the conversion of
  strings and objects is not modelled.
\<close>

definition set_length :: "val list \<Rightarrow> nat \<Rightarrow> val list" where
  "set_length es n = take n es @ replicate (n - length es) Undefined"

fun new_length :: "val \<Rightarrow> error + nat" where
  "new_length (Num n) = (if 0 \<le> n \<and> n < 2 ^ 32 then Inr (nat n) else Inl RangeError)"
| "new_length Null = Inr 0"
| "new_length (Bool b) = Inr (if b then 1 else 0)"
| "new_length Undefined = Inl RangeError"
| "new_length _ = Inl Unmodelled"

text \<open>
  \<open>target[prop] = v\<close> as a statement, on an extensible object without setters. The
  accessor \<open>__proto__\<close> is not modelled.
\<close>

definition js_set :: "heap \<Rightarrow> addr \<Rightarrow> string \<Rightarrow> val \<Rightarrow> error + heap" where
  "js_set h a prop v =
     (case lookup h a of
        None \<Rightarrow> Inl Unmodelled
      | Some (PlainObj ps) \<Rightarrow>
          if prop = ''__proto__'' \<and> prop \<notin> fst ` set ps then Inl Unmodelled
          else Inr (h[a := PlainObj (define_prop prop v ps)])
      | Some (ArrayObj es xs) \<Rightarrow>
          (case array_index prop of
             Some i \<Rightarrow>
               Inr (h[a := ArrayObj (if i < length es then es[i := v]
                                     else es @ replicate (i - length es) Undefined @ [v]) xs])
           | None \<Rightarrow>
               if prop = ''length'' then
                 (case new_length v of
                    Inl e \<Rightarrow> Inl e
                  | Inr n \<Rightarrow> Inr (h[a := ArrayObj (set_length es n) xs]))
               else if prop = ''__proto__'' \<and> prop \<notin> fst ` set xs then Inl Unmodelled
               else Inr (h[a := ArrayObj es (define_prop prop v xs)])))"

text \<open>\<open>typeof\<close>, as far as the proxy distinguishes.\<close>

datatype jstype = TObject | TFunction | TScalar

fun typeof :: "val \<Rightarrow> jstype" where
  "typeof (Ref a) = TObject"
| "typeof Null = TObject"
| "typeof (Fun f) = TFunction"
| "typeof _ = TScalar"

section \<open>Canonical serialization\<close>

text \<open>
  A JSON text is represented by the document it denotes: members of an object in
  textual order, so two texts are equal exactly when their documents are.
  \<open>JSON.stringify\<close> returns \<open>undefined\<close> (\<open>None\<close>) for \<open>undefined\<close> and for a function,
  omits such members from an object, writes them as \<open>null\<close> in an array, and throws
  a \<open>TypeError\<close> when it meets an object that is already on its stack.
\<close>

datatype json =
  JNull | JBool bool | JNum int | JStr string | JArr "json list" | JObj "(string \<times> json) list"

definition unseen :: "heap \<Rightarrow> addr list \<Rightarrow> nat" where
  "unseen h seen = card ({..<length h} - set seen)"

lemma unseen_less: "a < length h \<Longrightarrow> a \<notin> set seen \<Longrightarrow> unseen h (a # seen) < unseen h seen"
  unfolding unseen_def by (rule psubset_card_mono) auto

function (sequential)
  serialize :: "heap \<Rightarrow> addr list \<Rightarrow> val \<Rightarrow> error + json option"
  and serialize_members ::
    "heap \<Rightarrow> addr list \<Rightarrow> (string \<times> val) list \<Rightarrow> error + (string \<times> json) list"
  and serialize_elements :: "heap \<Rightarrow> addr list \<Rightarrow> val list \<Rightarrow> error + json list"
where
  "serialize h seen Undefined = Inr None"
| "serialize h seen Null = Inr (Some JNull)"
| "serialize h seen (Bool b) = Inr (Some (JBool b))"
| "serialize h seen (Num n) = Inr (Some (JNum n))"
| "serialize h seen (Str s) = Inr (Some (JStr s))"
| "serialize h seen (Fun f) = Inr None"
| "serialize h seen (Ref a) =
     (if a \<in> set seen then Inl TypeError
      else case lookup h a of
             None \<Rightarrow> Inl Unmodelled
           | Some (PlainObj ps) \<Rightarrow>
               (case serialize_members h (a # seen) ps of
                  Inl e \<Rightarrow> Inl e
                | Inr ms \<Rightarrow> Inr (Some (JObj ms)))
           | Some (ArrayObj es xs) \<Rightarrow>
               (case serialize_elements h (a # seen) es of
                  Inl e \<Rightarrow> Inl e
                | Inr js \<Rightarrow> Inr (Some (JArr js))))"
| "serialize_members h seen [] = Inr []"
| "serialize_members h seen ((k, v) # ps) =
     (case serialize h seen v of
        Inl e \<Rightarrow> Inl e
      | Inr r \<Rightarrow>
          (case serialize_members h seen ps of
             Inl e \<Rightarrow> Inl e
           | Inr ms \<Rightarrow> Inr (case r of None \<Rightarrow> ms | Some j \<Rightarrow> (k, j) # ms)))"
| "serialize_elements h seen [] = Inr []"
| "serialize_elements h seen (v # vs) =
     (case serialize h seen v of
        Inl e \<Rightarrow> Inl e
      | Inr r \<Rightarrow>
          (case serialize_elements h seen vs of
             Inl e \<Rightarrow> Inl e
           | Inr js \<Rightarrow> Inr ((case r of None \<Rightarrow> JNull | Some j \<Rightarrow> j) # js)))"
  by pat_completeness auto

termination
  apply (relation "inv_image (less_than <*lex*> less_than)
      (\<lambda>x. case x of
         Inl (h, seen, v) \<Rightarrow> (unseen h seen, 0)
       | Inr (Inl (h, seen, ps)) \<Rightarrow> (unseen h seen, Suc (length ps))
       | Inr (Inr (h, seen, vs)) \<Rightarrow> (unseen h seen, Suc (length vs)))")
  apply (auto simp: lookup_def unseen_less split: if_splits)
  done

definition JSON_stringify :: "heap \<Rightarrow> val \<Rightarrow> error + json option" where
  "JSON_stringify h v = serialize h [] v"

text \<open>
  \<open>JSON.parse\<close> builds fresh objects, the members of an object defined in textual
  order; applied to \<open>undefined\<close> it throws a \<open>SyntaxError\<close>.
\<close>

fun parse_val :: "heap \<Rightarrow> json \<Rightarrow> heap \<times> val"
  and parse_members ::
    "heap \<Rightarrow> (string \<times> val) list \<Rightarrow> (string \<times> json) list \<Rightarrow> heap \<times> (string \<times> val) list"
  and parse_elements :: "heap \<Rightarrow> json list \<Rightarrow> heap \<times> val list"
where
  "parse_val h JNull = (h, Null)"
| "parse_val h (JBool b) = (h, Bool b)"
| "parse_val h (JNum n) = (h, Num n)"
| "parse_val h (JStr s) = (h, Str s)"
| "parse_val h (JArr js) =
     (case parse_elements h js of (h', vs) \<Rightarrow> (h' @ [ArrayObj vs []], Ref (length h')))"
| "parse_val h (JObj ms) =
     (case parse_members h [] ms of (h', ps) \<Rightarrow> (h' @ [PlainObj ps], Ref (length h')))"
| "parse_members h acc [] = (h, acc)"
| "parse_members h acc ((k, j) # ms) =
     (case parse_val h j of (h', v) \<Rightarrow> parse_members h' (define_prop k v acc) ms)"
| "parse_elements h [] = (h, [])"
| "parse_elements h (j # js) =
     (case parse_val h j of (h', v) \<Rightarrow>
        (case parse_elements h' js of (h'', vs) \<Rightarrow> (h'', v # vs)))"

definition JSON_parse :: "heap \<Rightarrow> json option \<Rightarrow> error + heap \<times> val" where
  "JSON_parse h text = (case text of None \<Rightarrow> Inl SyntaxError | Some j \<Rightarrow> Inr (parse_val h j))"

section \<open>The hook's state\<close>

text \<open>
  A proxy created by \<open>createProxy\<close> is identified by its index in \<open>proxies\<close>; it owns
  its target and the \<open>getMap\<close> of its closure. A wrapper function returned for a
  method is identified by its index in \<open>wrappers\<close>; it closes over the target and the
  method. \<open>counter\<close> is the module's counter; \<open>hooks\<close> holds the \<open>useState\<close> and
  \<open>useMemo\<close> cells of the component once it has rendered, every memo cell with the
  dependencies it was computed for.
\<close>

record proxy =
  target :: addr
  getMap :: "string \<rightharpoonup> nat"

record hook_cells =
  resetId :: nat
  refreshId :: nat
  originalStr_memo :: "val \<times> json option"
  validator_memo :: "val \<times> (heap \<Rightarrow> val \<Rightarrow> validation_outcome)"
  model_memo :: "(json option \<times> val \<times> nat) \<times> val"
  proxy_memo :: "(val \<times> nat) \<times> nat"

record state =
  heap :: heap
  proxies :: "proxy list"
  wrappers :: "(addr \<times> val) list"
  counter :: nat
  hooks :: "hook_cells option"

text \<open>What a read through a proxy hands out.\<close>

datatype view = Plain val | ProxyRef nat | WrapperRef nat

text \<open>\<open>reset = () => setResetId(++counter)\<close> and \<open>refresh = () => setRefreshId(++counter)\<close>.\<close>

definition reset :: "state \<Rightarrow> state" where
  "reset st =
     st\<lparr>counter := counter st + 1,
        hooks := map_option (\<lambda>c. c\<lparr>resetId := counter st + 1\<rparr>) (hooks st)\<rparr>"

definition refresh :: "state \<Rightarrow> state" where
  "refresh st =
     st\<lparr>counter := counter st + 1,
        hooks := map_option (\<lambda>c. c\<lparr>refreshId := counter st + 1\<rparr>) (hooks st)\<rparr>"

section \<open>The change-tracking proxy\<close>

definition find_proxy :: "state \<Rightarrow> nat \<Rightarrow> proxy option" where
  "find_proxy st p = (if p < length (proxies st) then Some (proxies st ! p) else None)"

definition set_getMap :: "state \<Rightarrow> nat \<Rightarrow> (string \<rightharpoonup> nat) \<Rightarrow> state" where
  "set_getMap st p m = st\<lparr>proxies := (proxies st)[p := (proxies st ! p)\<lparr>getMap := m\<rparr>]\<rparr>"

text \<open>\<open>new Proxy(obj, ...)\<close> throws a \<open>TypeError\<close> unless \<open>obj\<close> is an object.\<close>

definition createProxy :: "state \<Rightarrow> val \<Rightarrow> state \<times> (error + nat)" where
  "createProxy st obj =
     (case obj of
        Ref a \<Rightarrow>
          (st\<lparr>proxies := proxies st @ [\<lparr>target = a, getMap = Map.empty\<rparr>]\<rparr>,
           Inr (length (proxies st)))
      | Fun f \<Rightarrow> (st, Inl Unmodelled)
      | _ \<Rightarrow> (st, Inl TypeError))"

text \<open>The \<open>get\<close> handler of proxy \<open>p\<close>.\<close>

definition proxy_get :: "env \<Rightarrow> state \<Rightarrow> nat \<Rightarrow> string \<Rightarrow> state \<times> (error + view)" where
  "proxy_get E st p prop =
     (case find_proxy st p of
        None \<Rightarrow> (st, Inl Unmodelled)
      | Some px \<Rightarrow>
          (case getMap px prop of
             Some c \<Rightarrow> (st, Inr (ProxyRef c))
           | None \<Rightarrow>
               (let value = js_get E (heap st) (target px) prop in
                if value = Undefined \<or> value = Null then (st, Inr (Plain value))
                else case typeof value of
                       TObject \<Rightarrow>
                         (case createProxy st value of
                            (st', Inl e) \<Rightarrow> (st', Inl e)
                          | (st', Inr c) \<Rightarrow>
                              (set_getMap st' p ((getMap px)(prop \<mapsto> c)), Inr (ProxyRef c)))
                     | TFunction \<Rightarrow>
                         (st\<lparr>wrappers := wrappers st @ [(target px, value)]\<rparr>,
                          Inr (WrapperRef (length (wrappers st))))
                     | TScalar \<Rightarrow> (st, Inr (Plain value)))))"

text \<open>The wrapper returned for a method, applied to \<open>args\<close>.\<close>

definition call_wrapper :: "env \<Rightarrow> state \<Rightarrow> nat \<Rightarrow> val list \<Rightarrow> state \<times> (error + val)" where
  "call_wrapper E st w args =
     (if w < length (wrappers st) then
        (case wrappers st ! w of (tgt, value) \<Rightarrow>
           (case JSON_stringify (heap st) (Ref tgt) of
              Inl e \<Rightarrow> (st, Inl e)
            | Inr before \<Rightarrow>
                (case value of
                   Fun f \<Rightarrow>
                     (case call E f (heap st) tgt args of
                        (h', Inl e) \<Rightarrow> (st\<lparr>heap := h'\<rparr>, Inl e)
                      | (h', Inr result) \<Rightarrow>
                          (case JSON_stringify h' (Ref tgt) of
                             Inl e \<Rightarrow> (st\<lparr>heap := h'\<rparr>, Inl e)
                           | Inr after \<Rightarrow>
                               (if after \<noteq> before then refresh (st\<lparr>heap := h'\<rparr>)
                                else st\<lparr>heap := h'\<rparr>,
                                Inr result)))
                 | _ \<Rightarrow> (st, Inl TypeError))))
      else (st, Inl Unmodelled))"

text \<open>\<open>item === undefined ? item : JSON.parse(JSON.stringify(item))\<close>.\<close>

definition json_copy :: "heap \<Rightarrow> val \<Rightarrow> error + heap \<times> val" where
  "json_copy h item =
     (if item = Undefined then Inr (h, item)
      else case JSON_stringify h item of
             Inl e \<Rightarrow> Inl e
           | Inr text \<Rightarrow> JSON_parse h text)"

text \<open>
  The \<open>set\<close> handler of proxy \<open>p\<close>. The value written comes from outside: a primitive,
  a function or a raw object; handing a proxy back in is outside the model.
\<close>

definition proxy_set :: "env \<Rightarrow> state \<Rightarrow> nat \<Rightarrow> string \<Rightarrow> val \<Rightarrow> state \<times> (error + bool)" where
  "proxy_set E st p prop item =
     (case find_proxy st p of
        None \<Rightarrow> (st, Inl Unmodelled)
      | Some px \<Rightarrow>
          if js_get E (heap st) (target px) prop \<noteq> item then
            (let st1 = set_getMap st p ((getMap px)(prop := None)) in
             case json_copy (heap st1) item of
               Inl e \<Rightarrow> (st1, Inl e)
             | Inr (h2, v) \<Rightarrow>
                 (case js_set h2 (target px) prop v of
                    Inl e \<Rightarrow> (st1\<lparr>heap := h2\<rparr>, Inl e)
                  | Inr h3 \<Rightarrow> (refresh (st1\<lparr>heap := h3\<rparr>), Inr True)))
          else (st, Inr True))"

section \<open>The model controller\<close>

text \<open>
  What the closures \<open>isDirty\<close> and \<open>findErrors\<close> of one render capture.
\<close>

record control =
  model :: val
  originalStr :: "json option"
  validator :: "heap \<Rightarrow> val \<Rightarrow> validation_outcome"

fun truthy :: "val \<Rightarrow> bool" where
  "truthy Undefined = False"
| "truthy Null = False"
| "truthy (Bool b) = b"
| "truthy (Num n) = (n \<noteq> 0)"
| "truthy (Str s) = (s \<noteq> [])"
| "truthy (Ref a) = True"
| "truthy (Fun f) = True"

text \<open>\<open>useMemo(() => JSON.stringify(original || {}), [original])\<close>.\<close>

definition memo_originalStr ::
  "hook_cells option \<Rightarrow> heap \<Rightarrow> val \<Rightarrow> heap \<times> (error + json option)" where
  "memo_originalStr hc h original =
     (case hc of
        Some c \<Rightarrow>
          if fst (originalStr_memo c) = original then (h, Inr (snd (originalStr_memo c)))
          else if truthy original then (h, JSON_stringify h original)
          else (h @ [PlainObj []], JSON_stringify (h @ [PlainObj []]) (Ref (length h)))
      | None \<Rightarrow>
          if truthy original then (h, JSON_stringify h original)
          else (h @ [PlainObj []], JSON_stringify (h @ [PlainObj []]) (Ref (length h))))"

text \<open>
  \<open>useMemo(() => (!resetId || !original || true) && JSON.parse(originalStr),
  [originalStr, original, resetId])\<close>.
\<close>

definition memo_model ::
  "hook_cells option \<Rightarrow> heap \<Rightarrow> json option \<Rightarrow> val \<Rightarrow> nat \<Rightarrow> error + heap \<times> val" where
  "memo_model hc h text original rid =
     (case hc of
        Some c \<Rightarrow>
          if fst (model_memo c) = (text, original, rid) then Inr (h, snd (model_memo c))
          else JSON_parse h text
      | None \<Rightarrow> JSON_parse h text)"

text \<open>\<open>useMemo(() => new Validator().compile(schema), [schema])\<close>.\<close>

definition memo_validator ::
  "env \<Rightarrow> hook_cells option \<Rightarrow> heap \<Rightarrow> val \<Rightarrow> (heap \<Rightarrow> val \<Rightarrow> validation_outcome)" where
  "memo_validator E hc h schema =
     (case hc of
        Some c \<Rightarrow>
          if fst (validator_memo c) = schema then snd (validator_memo c) else compile E h schema
      | None \<Rightarrow> compile E h schema)"

text \<open>
  \<open>useMemo(() => (!refreshId || true) && createProxy(model), [model, createProxy, refreshId])\<close>;
  \<open>createProxy\<close> and \<open>refresh\<close> are stable callbacks.
\<close>

definition memo_proxy ::
  "hook_cells option \<Rightarrow> state \<Rightarrow> val \<Rightarrow> nat \<Rightarrow> state \<times> (error + nat)" where
  "memo_proxy hc st m fid =
     (case hc of
        Some c \<Rightarrow>
          if fst (proxy_memo c) = (m, fid) then (st, Inr (snd (proxy_memo c)))
          else createProxy st m
      | None \<Rightarrow> createProxy st m)"

text \<open>
  One render: \<open>useModel(original, schema)\<close>. Both \<open>useState(++counter)\<close> calls advance
  the counter on every render and initialise their cell on the first one. A render
  that throws leaves the cells as they were.
\<close>

definition useModel :: "env \<Rightarrow> state \<Rightarrow> val \<Rightarrow> val \<Rightarrow> state \<times> (error + nat \<times> control)" where
  "useModel E st original schema =
     (let hc = hooks st;
          rid = (case hc of None \<Rightarrow> counter st + 1 | Some c \<Rightarrow> resetId c);
          fid = (case hc of None \<Rightarrow> counter st + 2 | Some c \<Rightarrow> refreshId c);
          st0 = st\<lparr>counter := counter st + 2\<rparr>
      in case memo_originalStr hc (heap st0) original of
           (h1, Inl e) \<Rightarrow> (st0\<lparr>heap := h1\<rparr>, Inl e)
         | (h1, Inr text) \<Rightarrow>
             (let vd = memo_validator E hc h1 schema in
              case memo_model hc h1 text original rid of
                Inl e \<Rightarrow> (st0\<lparr>heap := h1\<rparr>, Inl e)
              | Inr (h2, m) \<Rightarrow>
                  (case memo_proxy hc (st0\<lparr>heap := h2\<rparr>) m fid of
                     (st3, Inl e) \<Rightarrow> (st3, Inl e)
                   | (st3, Inr p) \<Rightarrow>
                       (st3\<lparr>hooks := Some \<lparr>resetId = rid, refreshId = fid,
                                originalStr_memo = (original, text),
                                validator_memo = (schema, vd),
                                model_memo = ((text, original, rid), m),
                                proxy_memo = ((m, fid), p)\<rparr>\<rparr>,
                        Inr (p, \<lparr>model = m, originalStr = text, validator = vd\<rparr>)))))"

text \<open>\<open>isDirty = () => (!refreshId || true) && JSON.stringify(model) !== originalStr\<close>.\<close>

definition isDirty :: "state \<Rightarrow> control \<Rightarrow> error + bool" where
  "isDirty st c =
     (case JSON_stringify (heap st) (model c) of
        Inl e \<Rightarrow> Inl e
      | Inr text \<Rightarrow> Inr (text \<noteq> originalStr c))"

text \<open>\<open>errors = () => (!refreshId || true) && validator(model)\<close>.\<close>

definition errors :: "state \<Rightarrow> control \<Rightarrow> validation_outcome" where
  "errors st c = validator c (heap st) (model c)"

definition findErrors :: "state \<Rightarrow> control \<Rightarrow> string option \<Rightarrow> ValidationError list" where
  "findErrors st c prop = findErrors_in (errors st c) prop"

section \<open>What a caller can do between two renders\<close>

text \<open>
  The proxy has no \<open>deleteProperty\<close> handler (it watches \<open>get\<close> and \<open>set\<close> only), so
  \<open>delete proxy[prop]\<close> acts on the target directly: the cache and the refresh
  indicator are not touched. The \<open>length\<close> of an array cannot be deleted.
\<close>

definition js_delete :: "heap \<Rightarrow> addr \<Rightarrow> string \<Rightarrow> error + heap" where
  "js_delete h a prop =
     (case lookup h a of
        None \<Rightarrow> Inl Unmodelled
      | Some (PlainObj ps) \<Rightarrow> Inr (h[a := PlainObj (filter (\<lambda>kv. fst kv \<noteq> prop) ps)])
      | Some (ArrayObj es xs) \<Rightarrow>
          (case array_index prop of
             Some i \<Rightarrow> Inr (h[a := ArrayObj (if i < length es then es[i := Undefined] else es) xs])
           | None \<Rightarrow>
               if prop = ''length'' then Inl TypeError
               else Inr (h[a := ArrayObj es (filter (\<lambda>kv. fst kv \<noteq> prop) xs)])))"

definition proxy_delete :: "state \<Rightarrow> nat \<Rightarrow> string \<Rightarrow> state \<times> (error + bool)" where
  "proxy_delete st p prop =
     (case find_proxy st p of
        None \<Rightarrow> (st, Inl Unmodelled)
      | Some px \<Rightarrow>
          (case js_delete (heap st) (target px) prop of
             Inl e \<Rightarrow> (st, Inl e)
           | Inr h' \<Rightarrow> (st\<lparr>heap := h'\<rparr>, Inr True)))"

text \<open>
  What happens to a mounted component: the caller's actions on the values of a render,
  and further renders (a refresh or a reset schedules one), each leaving a state behind
  whether it returns or throws.
\<close>

datatype event =
  Read nat string | Write nat string val | Delete nat string | Invoke nat "val list" | Reset
  | Render val val

fun apply_event :: "env \<Rightarrow> state \<Rightarrow> event \<Rightarrow> state" where
  "apply_event E st (Read p prop) = fst (proxy_get E st p prop)"
| "apply_event E st (Write p prop item) = fst (proxy_set E st p prop item)"
| "apply_event E st (Delete p prop) = fst (proxy_delete st p prop)"
| "apply_event E st (Invoke w args) = fst (call_wrapper E st w args)"
| "apply_event E st Reset = reset st"
| "apply_event E st (Render original schema) = fst (useModel E st original schema)"

fun apply_events :: "env \<Rightarrow> state \<Rightarrow> event list \<Rightarrow> state" where
  "apply_events E st [] = st"
| "apply_events E st (ev # evs) = apply_events E (apply_event E st ev) evs"

text \<open>Proxy \<open>p\<close> holds child proxy \<open>c\<close> in its cache under the key \<open>prop\<close>.\<close>

definition cached :: "state \<Rightarrow> nat \<Rightarrow> string \<Rightarrow> nat \<Rightarrow> bool" where
  "cached st p prop c =
     (case find_proxy st p of None \<Rightarrow> False | Some px \<Rightarrow> getMap px prop = Some c)"

section \<open>Well-formed heaps and canonical texts\<close>

text \<open>
  The own keys of an object are distinct and enumerated with the array indices
  first, ascending. A text produced by \<open>JSON.stringify\<close> lists the members of every
  object in that order.
\<close>

definition key_before :: "string \<Rightarrow> string \<Rightarrow> bool" where
  "key_before k k' =
     (case array_index k' of
        None \<Rightarrow> True
      | Some n \<Rightarrow> (case array_index k of None \<Rightarrow> False | Some m \<Rightarrow> m < n))"

definition key_ok :: "string list \<Rightarrow> bool" where
  "key_ok ks = (distinct ks \<and> sorted_wrt key_before ks)"

fun wf_obj :: "obj \<Rightarrow> bool" where
  "wf_obj (PlainObj ps) = key_ok (map fst ps)"
| "wf_obj (ArrayObj es xs) = True"

definition wf_heap :: "heap \<Rightarrow> bool" where
  "wf_heap h = list_all wf_obj h"

text \<open>No address on the serializer's stack lies in the range \<open>lo..<hi\<close>.\<close>

definition off_range :: "addr list \<Rightarrow> nat \<Rightarrow> nat \<Rightarrow> bool" where
  "off_range seen lo hi = (\<forall>a\<in>set seen. a < lo \<or> hi \<le> a)"

fun canonical :: "json \<Rightarrow> bool" where
  "canonical (JArr js) = list_all canonical js"
| "canonical (JObj ms) = (key_ok (map fst ms) \<and> list_all canonical (map snd ms))"
| "canonical _ = True"

section \<open>What every render establishes\<close>

text \<open>
  The memo cells of a rendered component are consistent: the text in the \<open>originalStr\<close>
  cell is the one recorded in the dependencies of the snapshot, it was produced by
  serializing the Original of its dependency and lists object members in enumeration
  order, the snapshot was parsed from it, the identifiers handed out do not exceed the
  counter, and the memoized proxy wraps the snapshot.
\<close>

definition snapshot_inv :: "state \<Rightarrow> bool" where
  "snapshot_inv st =
     (case hooks st of
        None \<Rightarrow> True
      | Some hc \<Rightarrow>
          (case model_memo hc of
             ((text, orig, rid), m) \<Rightarrow>
               originalStr_memo hc = (orig, text) \<and>
               rid \<le> counter st \<and> resetId hc \<le> counter st \<and>
               (\<forall>j. text = Some j \<longrightarrow> canonical j) \<and>
               (\<exists>h. snd (memo_originalStr None h orig) = Inr text) \<and>
               (\<exists>h h'. JSON_parse h text = Inr (h', m)) \<and>
               (\<exists>a px. m = Ref a \<and> fst (fst (proxy_memo hc)) = m \<and>
                  find_proxy st (snd (proxy_memo hc)) = Some px \<and> target px = a)))"

text \<open>
  A step from \<open>st\<close> to \<open>st'\<close> that leaves the memo cells alone: the counter does not
  fall, every proxy keeps its target, and the reset indicator is either unchanged or a
  newly drawn identifier.
\<close>

definition cells_kept :: "state \<Rightarrow> state \<Rightarrow> bool" where
  "cells_kept st st' =
     (counter st \<le> counter st' \<and>
      (\<forall>p px. find_proxy st p = Some px \<longrightarrow>
         (\<exists>px'. find_proxy st' p = Some px' \<and> target px' = target px)) \<and>
      (case hooks st of
         None \<Rightarrow> hooks st' = None
       | Some hc \<Rightarrow>
           (\<exists>hc'. hooks st' = Some hc' \<and>
              originalStr_memo hc' = originalStr_memo hc \<and>
              validator_memo hc' = validator_memo hc \<and>
              model_memo hc' = model_memo hc \<and>
              proxy_memo hc' = proxy_memo hc \<and>
              (resetId hc' = resetId hc \<or>
               counter st < resetId hc' \<and> resetId hc' \<le> counter st'))))"

section \<open>Reachable states\<close>

text \<open>
  The native functions of a well-formed engine leave the own keys of every object
  distinct and in enumeration order.
\<close>

definition wf_env :: "env \<Rightarrow> bool" where
  "wf_env E = (\<forall>f h a args. wf_heap h \<longrightarrow> wf_heap (fst (call E f h a args)))"

text \<open>
  The states of a component: it starts unmounted on a well-formed heap, which holds
  the objects of the caller, and goes through renders and the caller's actions.
\<close>

inductive reachable :: "env \<Rightarrow> state \<Rightarrow> bool" for E :: env where
  unmounted: "wf_heap h \<Longrightarrow>
    reachable E \<lparr>heap = h, proxies = [], wrappers = [], counter = n, hooks = None\<rparr>"
| event: "reachable E st \<Longrightarrow> reachable E (apply_event E st ev)"

text \<open>A numeral without a leading zero.\<close>

definition no_leading_zero :: "string \<Rightarrow> bool" where
  "no_leading_zero s = (s = [] \<or> hd s \<noteq> CHR ''0'')"

section \<open>Reference definitions and sample data\<close>

text \<open>
  The field-path filter in the words of the specification: the field equals the path,
  or starts with the path followed by a dot or by an opening bracket.
\<close>

definition spec_starts_with :: "string \<Rightarrow> string \<Rightarrow> bool" where
  "spec_starts_with s q = (take (length q) s = q)"

definition spec_field_matches :: "string \<Rightarrow> ValidationError \<Rightarrow> bool" where
  "spec_field_matches fieldPath e =
     (field e = fieldPath \<or> spec_starts_with (field e) (fieldPath @ ''.'')
      \<or> spec_starts_with (field e) (fieldPath @ ''[''))"

definition err_name :: ValidationError where
  "err_name = \<lparr>type = ''stringMin'', field = ''name'', message = ''too short''\<rparr>"

definition err_age0 :: ValidationError where
  "err_age0 = \<lparr>type = ''number'', field = ''children[0].age'', message = ''not a number''\<rparr>"

definition err_age1 :: ValidationError where
  "err_age1 = \<lparr>type = ''number'', field = ''children[1].age'', message = ''not a number''\<rparr>"

definition three_errors :: "heap \<Rightarrow> val \<Rightarrow> validation_outcome" where
  "three_errors h v = Errors [err_name, err_age0, err_age1]"

definition empty_state :: state where
  "empty_state = \<lparr>heap = [], proxies = [], wrappers = [], counter = 0, hooks = None\<rparr>"

definition three_errors_control :: control where
  "three_errors_control = \<lparr>model = Null, originalStr = None, validator = three_errors\<rparr>"

text \<open>
  A small engine: every object inherits \<open>toString\<close> and \<open>valueOf\<close> (which returns the
  object itself), arrays also \<open>push\<close> (appends its arguments, returns the new length) and
  \<open>slice\<close> (returns a fresh copy); the compiled validator accepts everything.
\<close>

definition native_call :: "fid \<Rightarrow> heap \<Rightarrow> addr \<Rightarrow> val list \<Rightarrow> heap \<times> (error + val)" where
  "native_call f h a args =
     (if f = ''valueOf'' then (h, Inr (Ref a))
      else if f = ''toString'' then (h, Inr (Str ''[object Object]''))
      else case lookup h a of
             Some (ArrayObj es xs) \<Rightarrow>
               if f = ''push'' then
                 (h[a := ArrayObj (es @ args) xs], Inr (Num (int (length es + length args))))
               else if f = ''slice'' then (h @ [ArrayObj es []], Inr (Ref (length h)))
               else (h, Inl TypeError)
           | _ \<Rightarrow> (h, Inl TypeError))"

definition object_proto :: "string \<Rightarrow> val" where
  "object_proto prop =
     (if prop = ''toString'' then Fun ''toString''
      else if prop = ''valueOf'' then Fun ''valueOf''
      else Undefined)"

definition array_proto :: "string \<Rightarrow> val" where
  "array_proto prop =
     (if prop = ''push'' then Fun ''push''
      else if prop = ''slice'' then Fun ''slice''
      else object_proto prop)"

definition accept_all :: "heap \<Rightarrow> val \<Rightarrow> heap \<Rightarrow> val \<Rightarrow> validation_outcome" where
  "accept_all h schema h' v = Valid"

definition accepting_control :: control where
  "accepting_control = \<lparr>model = Null, originalStr = None, validator = accept_all [] Null\<rparr>"

definition demo_env :: env where
  "demo_env = \<lparr>objectProto = object_proto, arrayProto = array_proto,
                call = native_call, compile = accept_all\<rparr>"

subsection \<open>A worked scenario\<close>

text \<open>
  An Original with a name and one child, the component mounted on it, and the states
  reached from there by the reads, writes and calls the scenarios below go through.
\<close>

definition family_heap :: heap where
  "family_heap = [PlainObj [(''name'', Str ''Jochen''), (''children'', Ref 1)],
                  ArrayObj [Ref 2] [], PlainObj [(''age'', Num 3)]]"

definition family_start :: state where
  "family_start = \<lparr>heap = family_heap, proxies = [], wrappers = [], counter = 0, hooks = None\<rparr>"

definition family_text :: "json option" where
  "family_text =
     Some (JObj [(''name'', JStr ''Jochen''), (''children'', JArr [JObj [(''age'', JNum 3)]])])"

definition family_cells :: hook_cells where
  "family_cells =
     \<lparr>resetId = 1, refreshId = 2, originalStr_memo = (Ref 0, family_text),
      validator_memo = (Null, accept_all family_heap Null),
      model_memo = ((family_text, Ref 0, 1), Ref 5), proxy_memo = ((Ref 5, 2), 0)\<rparr>"

definition family_model_heap :: heap where
  "family_model_heap =
     family_heap @ [PlainObj [(''age'', Num 3)], ArrayObj [Ref 3] [],
                    PlainObj [(''name'', Str ''Jochen''), (''children'', Ref 4)]]"

definition family_mounted :: state where
  "family_mounted =
     \<lparr>heap = family_model_heap, proxies = [\<lparr>target = 5, getMap = Map.empty\<rparr>], wrappers = [],
      counter = 2, hooks = Some family_cells\<rparr>"

definition family_control :: control where
  "family_control =
     \<lparr>model = Ref 5, originalStr = family_text, validator = accept_all family_heap Null\<rparr>"

definition root_proxy :: proxy where
  "root_proxy = \<lparr>target = 5, getMap = Map.empty\<rparr>"

definition family_read :: state where
  "family_read = fst (proxy_get demo_env family_mounted 0 ''children'')"

definition family_replaced :: state where
  "family_replaced = fst (proxy_set demo_env family_read 0 ''children'' (Ref 1))"

definition child_cached :: proxy where
  "child_cached = root_proxy\<lparr>getMap := [''children'' \<mapsto> 1]\<rparr>"

definition family_copy_heap :: heap where
  "family_copy_heap = family_model_heap @ [PlainObj [(''age'', Num 3)], ArrayObj [Ref 6] []]"

definition family_replaced_heap :: heap where
  "family_replaced_heap =
     family_copy_heap[5 := PlainObj [(''name'', Str ''Jochen''), (''children'', Ref 7)]]"

definition family_valueOf :: state where
  "family_valueOf = fst (proxy_get demo_env family_read 1 ''valueOf'')"

definition family_rewritten :: state where
  "family_rewritten = fst (proxy_set demo_env family_valueOf 0 ''children'' (Ref 4))"

definition family_events :: "event list" where
  "family_events = [Read 0 ''name'', Write 0 ''name'' (Str ''Jo''), Render (Ref 0) Null]"

definition array_proxy :: proxy where
  "array_proxy = \<lparr>target = 4, getMap = Map.empty\<rparr>"

definition family_push :: state where
  "family_push = fst (proxy_get demo_env family_read 1 ''push'')"

definition family_methods :: state where
  "family_methods = fst (proxy_get demo_env family_push 1 ''slice'')"

definition shadow_start :: state where
  "shadow_start =
     \<lparr>heap = [PlainObj [(''toString'', Ref 1)], PlainObj []], proxies = [], wrappers = [],
      counter = 0, hooks = None\<rparr>"

definition shadow_mounted :: state where
  "shadow_mounted = fst (useModel demo_env shadow_start (Ref 0) Null)"

definition shadow_read :: state where
  "shadow_read = fst (proxy_get demo_env shadow_mounted 0 ''toString'')"

definition shadow_deleted :: state where
  "shadow_deleted = fst (proxy_delete shadow_read 0 ''toString'')"

definition children_text :: "json option" where
  "children_text = Some (JArr [JObj [(''age'', JNum 3)]])"

definition pushed_heap :: heap where
  "pushed_heap = family_model_heap[4 := ArrayObj [Ref 3, Num 7] []]"

definition sliced_heap :: heap where
  "sliced_heap = family_model_heap @ [ArrayObj [Ref 3] []]"

definition family_control2 :: control where
  "family_control2 =
     \<lparr>model = Ref 8, originalStr = family_text, validator = accept_all family_heap Null\<rparr>"

definition family_rerendered :: state where
  "family_rerendered = fst (useModel demo_env family_mounted (Ref 0) Null)"

definition family_after_reset :: state where
  "family_after_reset = fst (useModel demo_env (reset family_mounted) (Ref 0) Null)"

definition family_after_swap :: state where
  "family_after_swap = fst (useModel demo_env family_mounted (Ref 5) Null)"

definition swap_heap :: heap where
  "swap_heap = [PlainObj [(''a'', Num 1), (''b'', Num 2)], PlainObj [(''b'', Num 2), (''a'', Num 1)]]"

definition swap_start :: state where
  "swap_start = \<lparr>heap = swap_heap, proxies = [], wrappers = [], counter = 0, hooks = None\<rparr>"

definition swap_control_ab :: control where
  "swap_control_ab =
     \<lparr>model = Ref 2, originalStr = Some (JObj [(''a'', JNum 1), (''b'', JNum 2)]),
      validator = accept_all swap_heap Null\<rparr>"

definition swap_control_ba :: control where
  "swap_control_ba =
     \<lparr>model = Ref 3, originalStr = Some (JObj [(''b'', JNum 2), (''a'', JNum 1)]),
      validator = accept_all swap_heap Null\<rparr>"

definition swap_mounted :: state where
  "swap_mounted = fst (useModel demo_env swap_start (Ref 0) Null)"

definition swap_swapped :: state where
  "swap_swapped = fst (useModel demo_env swap_mounted (Ref 1) Null)"

definition swap_cells :: hook_cells where
  "swap_cells =
     \<lparr>resetId = 1, refreshId = 2,
      originalStr_memo = (Ref 0, Some (JObj [(''a'', JNum 1), (''b'', JNum 2)])),
      validator_memo = (Null, accept_all swap_heap Null),
      model_memo = ((Some (JObj [(''a'', JNum 1), (''b'', JNum 2)]), Ref 0, 1), Ref 2),
      proxy_memo = ((Ref 2, 2), 0)\<rparr>"

definition family_edits :: "event list" where
  "family_edits = [Write 0 ''name'' (Str ''Jo''), Render (Ref 0) Null, Read 1 ''name'']"

definition family_edited :: state where
  "family_edited = apply_events demo_env family_mounted family_edits"

definition family_edited_cells :: hook_cells where
  "family_edited_cells =
     \<lparr>resetId = 1, refreshId = 3, originalStr_memo = (Ref 0, family_text),
      validator_memo = (Null, accept_all family_heap Null),
      model_memo = ((family_text, Ref 0, 1), Ref 5), proxy_memo = ((Ref 5, 3), 1)\<rparr>"

definition family_restored :: state where
  "family_restored = fst (useModel demo_env (reset family_edited) (Ref 0) Null)"

section \<open>Field-path filtering\<close>

lemma startsWith_take: "startsWith s q = (take (length q) s = q)"
  by (induction s q rule: startsWith.induct) auto

lemma field_matches_spec: "p \<noteq> [] \<Longrightarrow> field_matches p e = spec_field_matches p e"
  by (auto simp: field_matches_def spec_field_matches_def spec_starts_with_def startsWith_take)

text \<open>
  C3 (as amended). When the validator reports no errors, \<open>findErrors\<close> returns the empty
  sequence. Otherwise \<open>findErrors\<close> with the argument omitted, or with the empty string,
  returns the full ordered error sequence, and \<open>findErrors(fieldPath)\<close> with a non-empty
  path returns exactly the subsequence of errors whose field equals the path or starts
  with the path followed by \<open>.\<close> or \<open>[\<close>.
\<close>

theorem findErrors_by_field:
  "(errors st c = Valid \<longrightarrow> findErrors st c prop = []) \<and>
   (errors st c = Errors es \<longrightarrow>
      findErrors st c None = es \<and>
      findErrors st c (Some []) = es \<and>
      (p \<noteq> [] \<longrightarrow> findErrors st c (Some p) = filter (spec_field_matches p) es))"
  by (simp add: findErrors_def findErrors_in_def field_matches_spec cong: filter_cong)

text \<open>
  The example of the specification: with the fields \<open>name\<close>, \<open>children[0].age\<close> and
  \<open>children[1].age\<close>, the path \<open>children\<close> selects the two children entries, \<open>name\<close> the
  name entry, \<open>missing\<close> nothing, and no path all three; with a validator that accepts,
  nothing is returned.
\<close>

theorem findErrors_by_field_witness:
  "errors empty_state three_errors_control = Errors [err_name, err_age0, err_age1] \<and>
   findErrors empty_state three_errors_control None = [err_name, err_age0, err_age1] \<and>
   findErrors empty_state three_errors_control (Some ''children'') = [err_age0, err_age1] \<and>
   findErrors empty_state three_errors_control (Some ''name'') = [err_name] \<and>
   findErrors empty_state three_errors_control (Some ''missing'') = [] \<and>
   errors empty_state accepting_control = Valid \<and>
   findErrors empty_state accepting_control (Some ''name'') = []"
proof -
  have e: "errors empty_state three_errors_control = Errors [err_name, err_age0, err_age1]"
    by (simp add: errors_def three_errors_control_def three_errors_def)
  note t = findErrors_by_field [of empty_state three_errors_control _ "[err_name, err_age0, err_age1]"]
  have a: "findErrors empty_state three_errors_control None = [err_name, err_age0, err_age1]"
    using t e by blast
  have b: "findErrors empty_state three_errors_control (Some ''children'') = [err_age0, err_age1]"
    using t [of _ "''children''"] e
    by (simp add: spec_field_matches_def spec_starts_with_def err_name_def err_age0_def err_age1_def)
  have c: "findErrors empty_state three_errors_control (Some ''name'') = [err_name]"
    using t [of _ "''name''"] e
    by (simp add: spec_field_matches_def spec_starts_with_def err_name_def err_age0_def err_age1_def)
  have d: "findErrors empty_state three_errors_control (Some ''missing'') = []"
    using t [of _ "''missing''"] e
    by (simp add: spec_field_matches_def spec_starts_with_def err_name_def err_age0_def err_age1_def)
  have v: "errors empty_state accepting_control = Valid"
    by (simp add: errors_def accepting_control_def accept_all_def)
  from findErrors_by_field [of empty_state accepting_control "Some ''name''"] v
  have f: "findErrors empty_state accepting_control (Some ''name'') = []" by blast
  from e a b c d v f show ?thesis by simp
qed

text \<open>
  C3 as stated fails for the empty path: \<open>findErrors('')\<close> returns every error, not the
  errors whose field is empty or starts with \<open>.\<close> or \<open>[\<close>.
\<close>

theorem findErrors_empty_path_counterexample:
  "findErrors empty_state three_errors_control (Some [])
     \<noteq> filter (spec_field_matches []) [err_name, err_age0, err_age1]"
  by (simp add: findErrors_def findErrors_in_def errors_def three_errors_control_def three_errors_def
      spec_field_matches_def spec_starts_with_def err_name_def err_age0_def err_age1_def)

section \<open>Writes through the proxy\<close>

lemma proxy_set_never_false: "snd (proxy_set E st p prop item) \<noteq> Inr False"
  by (auto simp: proxy_set_def Let_def split: option.splits sum.splits prod.splits)

text \<open>
  C6. A write through the proxy whose new value is reference-identical to the current
  value of the property is a complete no-op: the state (target, per-key cache, refresh
  indicator) is returned unchanged and the write reports success. No write ever
  reports failure.
\<close>

theorem proxy_set_identical_noop:
  "(find_proxy st p = Some px \<longrightarrow> js_get E (heap st) (target px) key = item \<longrightarrow>
      proxy_set E st p key item = (st, Inr True)) \<and>
   snd (proxy_set E st' p' key' item') \<noteq> Inr False"
  by (simp add: proxy_set_never_false) (simp add: proxy_set_def)

lemma find_proxy_set_getMap:
  "find_proxy st p = Some px \<Longrightarrow>
   find_proxy (set_getMap st p m) q = (if q = p then Some (px\<lparr>getMap := m\<rparr>) else find_proxy st q)"
  by (auto simp: find_proxy_def set_getMap_def split: if_splits)

lemma find_proxy_refresh [simp]: "find_proxy (refresh st) p = find_proxy st p"
  by (simp add: find_proxy_def refresh_def)

lemma find_proxy_heap_update [simp]: "find_proxy (st\<lparr>heap := h\<rparr>) p = find_proxy st p"
  by (simp add: find_proxy_def)

lemma heap_refresh [simp]: "heap (refresh st) = heap st"
  by (simp add: refresh_def)

lemma counter_refresh [simp]: "counter (refresh st) = counter st + 1"
  by (simp add: refresh_def)

lemma proxies_refresh [simp]: "proxies (refresh st) = proxies st"
  by (simp add: refresh_def)

lemma wrappers_refresh [simp]: "wrappers (refresh st) = wrappers st"
  by (simp add: refresh_def)

lemma hooks_refresh:
  "hooks (refresh st) = map_option (\<lambda>c. c\<lparr>refreshId := counter st + 1\<rparr>) (hooks st)"
  by (simp add: refresh_def)

lemma heap_set_getMap [simp]: "heap (set_getMap st p m) = heap st"
  by (simp add: set_getMap_def)

lemma counter_set_getMap [simp]: "counter (set_getMap st p m) = counter st"
  by (simp add: set_getMap_def)

lemma hooks_set_getMap [simp]: "hooks (set_getMap st p m) = hooks st"
  by (simp add: set_getMap_def)

lemma wrappers_set_getMap [simp]: "wrappers (set_getMap st p m) = wrappers st"
  by (simp add: set_getMap_def)

lemma length_proxies_set_getMap [simp]: "length (proxies (set_getMap st p m)) = length (proxies st)"
  by (simp add: set_getMap_def)

lemma json_copy_cases:
  "json_copy h item = Inr (h2, v) \<Longrightarrow>
     (item = Undefined \<longrightarrow> v = Undefined \<and> h2 = h) \<and>
     (item \<noteq> Undefined \<longrightarrow> (\<exists>j. JSON_stringify h item = Inr (Some j) \<and> parse_val h j = (h2, v)))"
  by (auto simp: json_copy_def JSON_parse_def split: if_splits sum.splits option.splits)

lemma map_of_replace_prop: "k \<in> fst ` set ps \<Longrightarrow> map_of (replace_prop k v ps) k = Some v"
  by (induction ps) force+

lemma map_of_insert_index: "k \<notin> fst ` set ps \<Longrightarrow> map_of (insert_index n k v ps) k = Some v"
  by (induction ps) (auto split: option.splits)

lemma map_of_define_prop: "map_of (define_prop k v ps) k = Some v"
  by (auto simp: define_prop_def map_of_replace_prop map_of_insert_index map_add_def
      map_of_eq_None_iff [symmetric] split: option.splits)

lemma new_length_Inr:
  "new_length v = Inr n \<Longrightarrow> v = Num (int n) \<or> v = Null \<or> (\<exists>b. v = Bool b)"
  by (cases v) (auto split: if_splits)

lemma js_get_js_set:
  assumes "js_set h a prop v = Inr h'"
  shows "js_get E h' a prop = v \<or> (prop = ''length'' \<and> (v = Null \<or> (\<exists>b. v = Bool b)))"
proof (cases "lookup h a")
  case None
  with assms show ?thesis by (simp add: js_set_def)
next
  case (Some ob)
  then have a: "a < length h" by (simp add: lookup_def split: if_splits)
  show ?thesis
  proof (cases ob)
    case (PlainObj ps)
    with assms Some a show ?thesis
      by (auto simp: js_set_def js_get_def lookup_def map_of_define_prop split: if_splits)
  next
    case (ArrayObj es xs)
    show ?thesis
    proof (cases "array_index prop")
      case (Some i)
      with assms \<open>lookup h a = Some ob\<close> ArrayObj a show ?thesis
        by (auto simp: js_set_def js_get_def lookup_def nth_append split: if_splits)
    next
      case None
      show ?thesis
      proof (cases "prop = ''length''")
        case True
        with assms \<open>lookup h a = Some ob\<close> ArrayObj a None show ?thesis
          by (auto simp: js_set_def js_get_def lookup_def set_length_def
              split: if_splits sum.splits dest!: new_length_Inr)
      next
        case False
        with assms \<open>lookup h a = Some ob\<close> ArrayObj a None show ?thesis
          by (auto simp: js_set_def js_get_def lookup_def map_of_define_prop split: if_splits)
      qed
    qed
  qed
qed

text \<open>
  C5 (as amended). A write through the proxy of a value that is not reference-identical
  to the current value, whose JSON copy exists (the value is \<open>undefined\<close>, or it has a
  serialization) and whose assignment to the target does not throw, drops the cached
  child proxy for that key and no other, assigns to the target's property the round-trip
  copy of the value (\<open>undefined\<close> as it is), which then reads back from the target
  (but for \<open>null\<close> or a boolean assigned to the \<open>length\<close> of an array, which is stored
  as a number), fires the refresh notification and reports success.
\<close>

theorem proxy_set_effective:
  assumes "find_proxy st p = Some px"
    and "js_get E (heap st) (target px) prop \<noteq> item"
    and "json_copy (heap st) item = Inr (h2, v)"
    and "js_set h2 (target px) prop v = Inr h3"
  shows "proxy_set E st p prop item =
           (refresh ((set_getMap st p ((getMap px)(prop := None)))\<lparr>heap := h3\<rparr>), Inr True) \<and>
         find_proxy (fst (proxy_set E st p prop item)) p = Some (px\<lparr>getMap := (getMap px)(prop := None)\<rparr>) \<and>
         (item = Undefined \<longrightarrow> v = Undefined \<and> h2 = heap st) \<and>
         (item \<noteq> Undefined \<longrightarrow>
            (\<exists>j. JSON_stringify (heap st) item = Inr (Some j) \<and> parse_val (heap st) j = (h2, v))) \<and>
         heap (fst (proxy_set E st p prop item)) = h3 \<and>
         (js_get E h3 (target px) prop = v \<or> (prop = ''length'' \<and> (v = Null \<or> (\<exists>b. v = Bool b)))) \<and>
         counter (fst (proxy_set E st p prop item)) = counter st + 1 \<and>
         hooks (fst (proxy_set E st p prop item)) =
           map_option (\<lambda>c. c\<lparr>refreshId := counter st + 1\<rparr>) (hooks st)"
proof -
  have r: "proxy_set E st p prop item =
           (refresh ((set_getMap st p ((getMap px)(prop := None)))\<lparr>heap := h3\<rparr>), Inr True)"
    using assms by (simp add: proxy_set_def Let_def)
  have f: "find_proxy (fst (proxy_set E st p prop item)) p = Some (px\<lparr>getMap := (getMap px)(prop := None)\<rparr>)"
    using assms(1) by (simp add: r find_proxy_set_getMap)
  note n = json_copy_cases [OF assms(3)]
  note g = js_get_js_set [OF assms(4), of E]
  show ?thesis using r f n g by (simp add: hooks_refresh)
qed

section \<open>Reads through the proxy\<close>

lemma cached_read: "cached st p prop c \<Longrightarrow> proxy_get E st p prop = (st, Inr (ProxyRef c))"
  by (auto simp: cached_def proxy_get_def split: option.splits)

lemma find_proxy_append:
  "find_proxy st p = Some px \<Longrightarrow> find_proxy (st\<lparr>proxies := proxies st @ ys\<rparr>) p = Some px"
  by (auto simp: find_proxy_def nth_append split: if_splits)

lemma find_proxy_wrappers [simp]: "find_proxy (st\<lparr>wrappers := ws\<rparr>) p = find_proxy st p"
  by (simp add: find_proxy_def)

lemma find_proxy_reset [simp]: "find_proxy (reset st) p = find_proxy st p"
  by (simp add: find_proxy_def reset_def)

lemma proxy_get_proxy_cached:
  assumes "proxy_get E st p prop = (st1, Inr (ProxyRef c))"
  shows "cached st1 p prop c"
proof (cases "find_proxy st p")
  case None
  with assms show ?thesis by (simp add: proxy_get_def)
next
  case (Some px)
  show ?thesis
  proof (cases "getMap px prop")
    case (Some c')
    with assms \<open>find_proxy st p = Some px\<close> show ?thesis
      by (auto simp: proxy_get_def cached_def)
  next
    case None
    with assms \<open>find_proxy st p = Some px\<close> show ?thesis
      by (auto simp: proxy_get_def cached_def Let_def createProxy_def find_proxy_set_getMap
          find_proxy_append split: if_splits jstype.splits val.splits)
  qed
qed

lemma find_proxy_proxy_get:
  assumes "find_proxy st p = Some px"
  shows "\<exists>px'. find_proxy (fst (proxy_get E st q k)) p = Some px' \<and> target px' = target px \<and>
           (\<forall>prop. (q, k) \<noteq> (p, prop) \<longrightarrow> getMap px' prop = getMap px prop)"
proof (cases "find_proxy st q")
  case None
  with assms show ?thesis by (simp add: proxy_get_def)
next
  case (Some qx)
  have ap: "\<And>ys. find_proxy (st\<lparr>proxies := proxies st @ ys\<rparr>) q = Some qx"
    using Some by (rule find_proxy_append)
  show ?thesis
  proof (cases "q = p")
    case True
    with assms Some ap show ?thesis
      by (auto simp: proxy_get_def Let_def createProxy_def find_proxy_set_getMap
          split: option.splits jstype.splits val.splits)
  next
    case False
    with assms Some ap show ?thesis
      by (auto simp: proxy_get_def Let_def createProxy_def find_proxy_set_getMap find_proxy_append
          split: option.splits jstype.splits val.splits)
  qed
qed

lemma find_proxy_proxy_set:
  assumes "find_proxy st p = Some px"
  shows "\<exists>px'. find_proxy (fst (proxy_set E st q k item)) p = Some px' \<and> target px' = target px \<and>
           (\<forall>prop. (q, k) \<noteq> (p, prop) \<longrightarrow> getMap px' prop = getMap px prop)"
proof (cases "find_proxy st q")
  case None
  with assms show ?thesis by (simp add: proxy_set_def)
next
  case (Some qx)
  with assms show ?thesis
    by (cases "q = p")
      (auto simp: proxy_set_def Let_def find_proxy_set_getMap split: sum.splits prod.splits)
qed

lemma find_proxy_proxy_delete:
  "find_proxy (fst (proxy_delete st q k)) p = find_proxy st p"
  by (auto simp: proxy_delete_def split: option.splits sum.splits)

lemma find_proxy_call_wrapper:
  "find_proxy (fst (call_wrapper E st w args)) p = find_proxy st p"
  by (auto simp: call_wrapper_def split: prod.splits sum.splits val.splits)

lemma useModel_frame:
  "counter (fst (useModel E st original schema)) = counter st + 2 \<and>
   wrappers (fst (useModel E st original schema)) = wrappers st \<and>
   (\<exists>ys. proxies (fst (useModel E st original schema)) = proxies st @ ys) \<and>
   (\<forall>e. snd (useModel E st original schema) = Inl e \<longrightarrow>
        hooks (fst (useModel E st original schema)) = hooks st)"
  by (auto simp: useModel_def Let_def memo_proxy_def createProxy_def
      split: prod.splits sum.splits option.splits if_splits val.splits)

lemma find_proxy_useModel:
  assumes "find_proxy st q = Some px"
  shows "find_proxy (fst (useModel E st original schema)) q = Some px"
proof -
  from useModel_frame [of E st original schema]
  obtain ys where "proxies (fst (useModel E st original schema)) = proxies st @ ys" by blast
  with assms show ?thesis by (auto simp: find_proxy_def nth_append split: if_splits)
qed

lemma cached_apply_event:
  assumes "cached st p prop c" and "\<And>item. ev \<noteq> Write p prop item"
  shows "cached (apply_event E st ev) p prop c"
proof -
  from assms(1) obtain px where px: "find_proxy st p = Some px" "getMap px prop = Some c"
    by (auto simp: cached_def split: option.splits)
  show ?thesis
  proof (cases ev)
    case (Read q k)
    show ?thesis
    proof (cases "(q, k) = (p, prop)")
      case True
      with Read assms(1) show ?thesis by (simp add: cached_read)
    next
      case False
      with find_proxy_proxy_get [OF px(1), of E q k] px(2) Read show ?thesis
        by (auto simp: cached_def)
    qed
  next
    case (Write q k item)
    with assms(2) have "(q, k) \<noteq> (p, prop)" by auto
    with find_proxy_proxy_set [OF px(1), of E q k item] px(2) Write show ?thesis
      by (auto simp: cached_def)
  next
    case (Delete q k)
    with px show ?thesis by (simp add: cached_def find_proxy_proxy_delete)
  next
    case (Invoke w args)
    with px show ?thesis by (simp add: cached_def find_proxy_call_wrapper)
  next
    case Reset
    with px show ?thesis by (simp add: cached_def)
  next
    case (Render original schema)
    with px find_proxy_useModel [OF px(1), of E original schema] show ?thesis
      by (simp add: cached_def)
  qed
qed

lemma cached_apply_events:
  "cached st p prop c \<Longrightarrow> (\<forall>ev\<in>set evs. \<forall>item. ev \<noteq> Write p prop item) \<Longrightarrow>
   cached (apply_events E st evs) p prop c"
  by (induction evs arbitrary: st) (auto intro: cached_apply_event)

lemma object_read_gives_proxy:
  assumes "find_proxy st p = Some px" and "js_get E (heap st) (target px) prop = Ref a"
  shows "\<exists>c st1. proxy_get E st p prop = (st1, Inr (ProxyRef c))"
  using assms by (auto simp: proxy_get_def Let_def createProxy_def split: option.splits)

lemma proxy_set_success:
  assumes "find_proxy st p = Some px" and "js_get E (heap st) (target px) prop \<noteq> item"
    and "proxy_set E st p prop item = (st', Inr True)"
  shows "find_proxy st' p = Some (px\<lparr>getMap := (getMap px)(prop := None)\<rparr>) \<and>
         length (proxies st') = length (proxies st)"
  using assms
  by (auto simp: proxy_set_def Let_def find_proxy_set_getMap split: sum.splits prod.splits)

lemma uncached_read:
  assumes "find_proxy st p = Some px" and "getMap px prop = None" and "c < length (proxies st)"
  shows "snd (proxy_get E st p prop) \<noteq> Inr (ProxyRef c) \<and>
         (\<forall>a. js_get E (heap st) (target px) prop = Ref a \<longrightarrow>
              snd (proxy_get E st p prop) = Inr (ProxyRef (length (proxies st))))"
  using assms
  by (auto simp: proxy_get_def Let_def createProxy_def split: jstype.splits val.splits)



lemma wrappers_apply_event: "\<exists>ys. wrappers (apply_event E st ev) = wrappers st @ ys"
proof (cases ev)
  case (Read p k)
  then show ?thesis
    by (auto simp: proxy_get_def Let_def createProxy_def set_getMap_def
        split: option.splits jstype.splits val.splits)
next
  case (Write p k item)
  then show ?thesis
    by (auto simp: proxy_set_def Let_def set_getMap_def refresh_def
        split: option.splits sum.splits prod.splits)
next
  case (Delete p k)
  then show ?thesis by (auto simp: proxy_delete_def split: option.splits sum.splits)
next
  case (Invoke w args)
  then show ?thesis
    by (auto simp: call_wrapper_def refresh_def split: prod.splits sum.splits val.splits)
next
  case Reset
  then show ?thesis by (simp add: reset_def)
next
  case (Render original schema)
  with useModel_frame [of E st original schema] show ?thesis by simp
qed

lemma wrappers_apply_events: "\<exists>ys. wrappers (apply_events E st evs) = wrappers st @ ys"
proof (induction evs arbitrary: st)
  case Nil
  show ?case by simp
next
  case (Cons ev evs)
  from wrappers_apply_event [of E st ev] obtain ys where
    "wrappers (apply_event E st ev) = wrappers st @ ys" by blast
  moreover from Cons [of "apply_event E st ev"] obtain zs where
    "wrappers (apply_events E (apply_event E st ev) evs) = wrappers (apply_event E st ev) @ zs"
    by blast
  ultimately show ?case by simp
qed

lemma proxy_get_wrapper:
  assumes "proxy_get E st0 p key = (st, Inr (WrapperRef w))" and "find_proxy st0 p = Some px"
  shows "w < length (wrappers st) \<and>
         wrappers st ! w = (target px, js_get E (heap st0) (target px) key) \<and>
         typeof (js_get E (heap st0) (target px) key) = TFunction \<and>
         heap st = heap st0 \<and> counter st = counter st0 \<and> proxies st = proxies st0"
  using assms
  by (auto simp: proxy_get_def Let_def createProxy_def nth_append
      split: option.splits if_splits jstype.splits val.splits prod.splits)


section \<open>Serialization round trip\<close>

lemma insert_index_append:
  "(\<forall>k'\<in>fst ` set ps. \<exists>m. array_index k' = Some m \<and> m < n) \<Longrightarrow>
   insert_index n k v ps = ps @ [(k, v)]"
  by (induction ps) auto

lemma define_prop_append:
  assumes "key_ok (map fst ps @ [k])"
  shows "define_prop k v ps = ps @ [(k, v)]"
proof -
  from assms have nk: "k \<notin> fst ` set ps" and bf: "\<forall>k'\<in>fst ` set ps. key_before k' k"
    by (auto simp: key_ok_def sorted_wrt_append)
  show ?thesis
  proof (cases "array_index k")
    case None
    with nk show ?thesis by (simp add: define_prop_def)
  next
    case (Some n)
    with bf have "\<forall>k'\<in>fst ` set ps. \<exists>m. array_index k' = Some m \<and> m < n"
      by (auto simp: key_before_def split: option.splits)
    with nk Some show ?thesis by (simp add: define_prop_def insert_index_append)
  qed
qed

lemma serialize_members_keys:
  "serialize_members h seen ps = Inr ms \<Longrightarrow>
   set (map fst ms) \<subseteq> set (map fst ps) \<and> (key_ok (map fst ps) \<longrightarrow> key_ok (map fst ms))"
proof (induction ps arbitrary: ms)
  case Nil
  then show ?case by (simp add: key_ok_def)
next
  case (Cons kv ps)
  obtain k v where kv: "kv = (k, v)" by (cases kv)
  from Cons.prems kv obtain r ms' where r: "serialize h seen v = Inr r"
    and ms': "serialize_members h seen ps = Inr ms'"
    and ms: "ms = (case r of None \<Rightarrow> ms' | Some j \<Rightarrow> (k, j) # ms')"
    by (auto split: sum.splits)
  from Cons.IH [OF ms'] have sub: "set (map fst ms') \<subseteq> set (map fst ps)"
    and ok: "key_ok (map fst ps) \<longrightarrow> key_ok (map fst ms')" by simp_all
  show ?case
  proof (cases r)
    case None
    with ms sub ok kv show ?thesis by (auto simp: key_ok_def)
  next
    case (Some j)
    have "key_ok (k # map fst ms')" if "key_ok (k # map fst ps)"
    proof -
      from that ok have "key_ok (map fst ms')" by (simp add: key_ok_def)
      moreover from that sub have "k \<notin> set (map fst ms')" by (auto simp: key_ok_def)
      moreover from that have "\<forall>k'\<in>set (map fst ps). key_before k k'"
        by (simp add: key_ok_def)
      with sub have "\<forall>k'\<in>set (map fst ms'). key_before k k'" by blast
      ultimately show ?thesis by (simp add: key_ok_def)
    qed
    with Some ms sub kv show ?thesis by auto
  qed
qed

lemma serialize_canonical:
  shows "serialize h seen v = Inr (Some j) \<Longrightarrow> wf_heap h \<Longrightarrow> canonical j"
    and "serialize_members h seen ps = Inr ms \<Longrightarrow> wf_heap h \<Longrightarrow> list_all canonical (map snd ms)"
    and "serialize_elements h seen vs = Inr js \<Longrightarrow> wf_heap h \<Longrightarrow> list_all canonical js"
proof (induction h seen v and h seen ps and h seen vs arbitrary: j and ms and js
    rule: serialize_serialize_members_serialize_elements.induct)
  case (7 h seen a)
  from "7.prems" have ns: "a \<notin> set seen" by (auto split: if_splits)
  show ?case
  proof (cases "lookup h a")
    case None
    with "7.prems" ns show ?thesis by simp
  next
    case (Some ob)
    then have "a < length h" and "ob = h ! a" by (auto simp: lookup_def split: if_splits)
    with "7.prems" have wf: "wf_obj ob" by (auto simp: wf_heap_def list_all_length)
    show ?thesis
    proof (cases ob)
      case (PlainObj ps)
      with "7.prems" ns Some obtain ms where ms: "serialize_members h (a # seen) ps = Inr ms"
        and j: "j = JObj ms" by (auto split: sum.splits)
      from "7.IH"(1) [OF ns Some PlainObj ms] "7.prems" serialize_members_keys [OF ms] wf PlainObj j
      show ?thesis by simp
    next
      case (ArrayObj es xs)
      with "7.prems" ns Some obtain js where js: "serialize_elements h (a # seen) es = Inr js"
        and j: "j = JArr js" by (auto split: sum.splits)
      from "7.IH"(2) [OF ns Some ArrayObj js] "7.prems" j show ?thesis by simp
    qed
  qed
next
  case (9 h seen k v ps)
  from "9.prems" obtain r ms' where r: "serialize h seen v = Inr r"
    and ms': "serialize_members h seen ps = Inr ms'"
    and ms: "ms = (case r of None \<Rightarrow> ms' | Some j \<Rightarrow> (k, j) # ms')"
    by (auto split: sum.splits)
  from "9.IH"(2) [OF r ms'] "9.prems" have t: "list_all canonical (map snd ms')" by simp
  show ?case
  proof (cases r)
    case None
    with ms t show ?thesis by simp
  next
    case (Some j')
    with "9.IH"(1) "9.prems" r ms t show ?thesis by simp
  qed
next
  case (11 h seen v vs)
  from "11.prems" obtain r js' where r: "serialize h seen v = Inr r"
    and js': "serialize_elements h seen vs = Inr js'"
    and js: "js = (case r of None \<Rightarrow> JNull | Some j \<Rightarrow> j) # js'"
    by (auto split: sum.splits)
  from "11.IH"(2) [OF r js'] "11.prems" have t: "list_all canonical js'" by simp
  show ?case
  proof (cases r)
    case None
    with js t show ?thesis by simp
  next
    case (Some j')
    with "11.IH"(1) "11.prems" r js t show ?thesis by simp
  qed
qed auto

lemma parse_roundtrip:
  shows "parse_val h j = (h', v) \<Longrightarrow> canonical j \<Longrightarrow>
           (\<exists>e. h' = h @ e) \<and>
           (\<forall>seen ext. off_range seen (length h) (length h') \<longrightarrow>
              serialize (h' @ ext) seen v = Inr (Some j))"
    and "parse_members h acc ms = (h', ps) \<Longrightarrow> list_all canonical (map snd ms) \<Longrightarrow>
           key_ok (map fst acc @ map fst ms) \<Longrightarrow>
           (\<exists>e. h' = h @ e) \<and>
           (\<exists>new. ps = acc @ new \<and>
              (\<forall>seen ext. off_range seen (length h) (length h') \<longrightarrow>
                 serialize_members (h' @ ext) seen new = Inr ms))"
    and "parse_elements h js = (h', vs) \<Longrightarrow> list_all canonical js \<Longrightarrow>
           (\<exists>e. h' = h @ e) \<and>
           (\<forall>seen ext. off_range seen (length h) (length h') \<longrightarrow>
              serialize_elements (h' @ ext) seen vs = Inr js)"
proof (induction h j and h acc ms and h js arbitrary: h' v and h' ps and h' vs
    rule: parse_val_parse_members_parse_elements.induct)
  case (5 h js)
  from "5.prems" obtain h1 vs where pe: "parse_elements h js = (h1, vs)"
    and h': "h' = h1 @ [ArrayObj vs []]" and v: "v = Ref (length h1)"
    by (auto split: prod.splits)
  from "5.IH" [OF pe] "5.prems" obtain e where e: "h1 = h @ e"
    and ser: "\<And>seen ext. off_range seen (length h) (length h1) \<Longrightarrow>
                serialize_elements (h1 @ ext) seen vs = Inr js"
    by auto
  have "serialize (h' @ ext) seen v = Inr (Some (JArr js))"
    if ok: "off_range seen (length h) (length h')" for seen ext
  proof -
    from ok e h' have ns: "length h1 \<notin> set seen" by (auto simp: off_range_def)
    from ok e h' have "off_range (length h1 # seen) (length h) (length h1)"
      by (auto simp: off_range_def)
    from ser [OF this, of "ArrayObj vs [] # ext"] ns show ?thesis
      by (simp add: h' v lookup_def nth_append)
  qed
  with e h' show ?case by auto
next
  case (6 h ms)
  from "6.prems" obtain h1 ps where pm: "parse_members h [] ms = (h1, ps)"
    and h': "h' = h1 @ [PlainObj ps]" and v: "v = Ref (length h1)"
    by (auto split: prod.splits)
  from "6.IH" [OF pm] "6.prems" obtain e where e: "h1 = h @ e"
    and ser: "\<And>seen ext. off_range seen (length h) (length h1) \<Longrightarrow>
                serialize_members (h1 @ ext) seen ps = Inr ms"
    by auto
  have "serialize (h' @ ext) seen v = Inr (Some (JObj ms))"
    if ok: "off_range seen (length h) (length h')" for seen ext
  proof -
    from ok e h' have ns: "length h1 \<notin> set seen" by (auto simp: off_range_def)
    from ok e h' have "off_range (length h1 # seen) (length h) (length h1)"
      by (auto simp: off_range_def)
    from ser [OF this, of "PlainObj ps # ext"] ns show ?thesis
      by (simp add: h' v lookup_def nth_append)
  qed
  with e h' show ?case by auto
next
  case (8 h acc k j ms)
  obtain h1 v1 where pv: "parse_val h j = (h1, v1)" by (cases "parse_val h j")
  with "8.prems" have pm: "parse_members h1 (define_prop k v1 acc) ms = (h', ps)" by simp
  from "8.prems" have kok: "key_ok (map fst acc @ [k])"
    by (auto simp: key_ok_def sorted_wrt_append)
  then have dp: "define_prop k v1 acc = acc @ [(k, v1)]" by (rule define_prop_append)
  from "8.IH"(1) [OF pv] "8.prems" obtain e1 where e1: "h1 = h @ e1"
    and ser1: "\<And>seen ext. off_range seen (length h) (length h1) \<Longrightarrow>
                 serialize (h1 @ ext) seen v1 = Inr (Some j)"
    by auto
  from "8.IH"(2) [OF pv [symmetric] pm] "8.prems" dp obtain e2 new where e2: "h' = h1 @ e2"
    and ps: "ps = (acc @ [(k, v1)]) @ new"
    and ser2: "\<And>seen ext. off_range seen (length h1) (length h') \<Longrightarrow>
                 serialize_members (h' @ ext) seen new = Inr ms"
    by auto
  have "serialize_members (h' @ ext) seen ((k, v1) # new) = Inr ((k, j) # ms)"
    if ok: "off_range seen (length h) (length h')" for seen ext
  proof -
    from ok e1 e2 have o1: "off_range seen (length h) (length h1)"
      and o2: "off_range seen (length h1) (length h')"
      by (auto simp: off_range_def)
    from ser1 [OF o1, of "e2 @ ext"] ser2 [OF o2, of ext] e2 show ?thesis by simp
  qed
  with e1 e2 ps show ?case by auto
next
  case (10 h j js)
  obtain h1 v1 where pv: "parse_val h j = (h1, v1)" by (cases "parse_val h j")
  obtain h2 vs2 where pe: "parse_elements h1 js = (h2, vs2)" by (cases "parse_elements h1 js")
  from "10.prems" pv pe have h': "h' = h2" and vs: "vs = v1 # vs2" by simp_all
  from "10.IH"(1) [OF pv] "10.prems" obtain e1 where e1: "h1 = h @ e1"
    and ser1: "\<And>seen ext. off_range seen (length h) (length h1) \<Longrightarrow>
                 serialize (h1 @ ext) seen v1 = Inr (Some j)"
    by auto
  from "10.IH"(2) [OF pv [symmetric] pe] "10.prems" obtain e2 where e2: "h2 = h1 @ e2"
    and ser2: "\<And>seen ext. off_range seen (length h1) (length h2) \<Longrightarrow>
                 serialize_elements (h2 @ ext) seen vs2 = Inr js"
    by auto
  have "serialize_elements (h' @ ext) seen vs = Inr (j # js)"
    if ok: "off_range seen (length h) (length h')" for seen ext
  proof -
    from ok e1 e2 h' have o1: "off_range seen (length h) (length h1)"
      and o2: "off_range seen (length h1) (length h2)"
      by (auto simp: off_range_def)
    from ser1 [OF o1, of "e2 @ ext"] ser2 [OF o2, of ext] e2 h' vs show ?thesis by simp
  qed
  with e1 e2 h' show ?case by auto
qed auto

lemma stringify_parse:
  assumes "parse_val h j = (h', v)" and "canonical j"
  shows "JSON_stringify h' v = Inr (Some j)"
proof -
  from parse_roundtrip(1) [OF assms]
  have "off_range [] (length h) (length h') \<longrightarrow> serialize (h' @ []) [] v = Inr (Some j)"
    by blast
  then show ?thesis by (simp add: JSON_stringify_def off_range_def)
qed

lemma stringify_canonical:
  "JSON_stringify h v = Inr (Some j) \<Longrightarrow> wf_heap h \<Longrightarrow> canonical j"
  unfolding JSON_stringify_def by (rule serialize_canonical(1))

section \<open>Renders and the memo cells\<close>

lemma useModel_success:
  assumes "useModel E st original schema = (st', Inr (p, c))"
  obtains h1 tx h2 m st3 where
    "memo_originalStr (hooks st) (heap st) original = (h1, Inr tx)"
    "memo_model (hooks st) h1 tx original
       (case hooks st of None \<Rightarrow> counter st + 1 | Some c \<Rightarrow> resetId c) = Inr (h2, m)"
    "memo_proxy (hooks st) (st\<lparr>counter := counter st + 2, heap := h2\<rparr>) m
       (case hooks st of None \<Rightarrow> counter st + 2 | Some c \<Rightarrow> refreshId c) = (st3, Inr p)"
    "st' = st3\<lparr>hooks := Some \<lparr>resetId = (case hooks st of None \<Rightarrow> counter st + 1 | Some c \<Rightarrow> resetId c),
                refreshId = (case hooks st of None \<Rightarrow> counter st + 2 | Some c \<Rightarrow> refreshId c),
                originalStr_memo = (original, tx),
                validator_memo = (schema, memo_validator E (hooks st) h1 schema),
                model_memo = ((tx, original,
                   (case hooks st of None \<Rightarrow> counter st + 1 | Some c \<Rightarrow> resetId c)), m),
                proxy_memo = ((m, (case hooks st of None \<Rightarrow> counter st + 2 | Some c \<Rightarrow> refreshId c)), p)\<rparr>\<rparr>"
    "c = \<lparr>model = m, originalStr = tx, validator = memo_validator E (hooks st) h1 schema\<rparr>"
  using assms
  by (auto simp: useModel_def Let_def split: prod.splits sum.splits)

lemma memo_proxy_result:
  assumes "memo_proxy hc st m fid = (st3, Inr p)"
  shows "heap st3 = heap st \<and> counter st3 = counter st \<and> wrappers st3 = wrappers st \<and>
         (\<exists>ys. proxies st3 = proxies st @ ys)"
  using assms
  by (auto simp: memo_proxy_def createProxy_def split: option.splits if_splits val.splits)


lemma wf_heap_append: "wf_heap (h @ h') = (wf_heap h \<and> wf_heap h')"
  by (simp add: wf_heap_def)

lemma wf_heap_empty_obj [simp]: "wf_heap [PlainObj []]"
  by (simp add: wf_heap_def key_ok_def)

lemma memo_originalStr_cases:
  assumes "memo_originalStr hc h original = (h1, Inr tx)"
  shows "(\<exists>c. hc = Some c \<and> originalStr_memo c = (original, tx) \<and> h1 = h) \<or>
         ((\<forall>c. hc = Some c \<longrightarrow> fst (originalStr_memo c) \<noteq> original) \<and>
          memo_originalStr None h original = (h1, Inr tx) \<and>
          (h1 = h \<or> h1 = h @ [PlainObj []]) \<and>
          JSON_stringify h1 (if truthy original then original else Ref (length h)) = Inr tx)"
  using assms
  by (cases hc) (auto simp: memo_originalStr_def split: if_splits)

lemma memo_model_cases:
  assumes "memo_model hc h1 tx original rid = Inr (h2, m)"
  shows "(\<exists>c. hc = Some c \<and> model_memo c = ((tx, original, rid), m) \<and> h2 = h1) \<or>
         ((\<forall>c. hc = Some c \<longrightarrow> fst (model_memo c) \<noteq> (tx, original, rid)) \<and>
          JSON_parse h1 tx = Inr (h2, m))"
  using assms
  by (cases hc) (auto simp: memo_model_def prod_eq_iff split: if_splits)

lemma memo_proxy_cases:
  assumes "memo_proxy hc st m fid = (st3, Inr p)"
  shows "(\<exists>c. hc = Some c \<and> proxy_memo c = ((m, fid), p) \<and> st3 = st) \<or>
         ((\<forall>c. hc = Some c \<longrightarrow> fst (proxy_memo c) \<noteq> (m, fid)) \<and>
          (\<exists>a. m = Ref a \<and> p = length (proxies st) \<and>
             st3 = st\<lparr>proxies := proxies st @ [\<lparr>target = a, getMap = Map.empty\<rparr>]\<rparr>))"
  using assms
  by (cases hc) (auto simp: memo_proxy_def createProxy_def prod_eq_iff split: if_splits val.splits)

lemma find_proxy_hooks [simp]: "find_proxy (st\<lparr>hooks := x\<rparr>) p = find_proxy st p"
  by (simp add: find_proxy_def)

lemma find_proxy_counter [simp]: "find_proxy (st\<lparr>counter := x\<rparr>) p = find_proxy st p"
  by (simp add: find_proxy_def)

lemma find_proxy_new:
  "find_proxy (st\<lparr>proxies := proxies st @ [px]\<rparr>) (length (proxies st)) = Some px"
  by (simp add: find_proxy_def)

lemma snapshot_inv_Some:
  "hooks st = Some hc \<Longrightarrow>
   snapshot_inv st =
     (\<exists>tx orig rid m. model_memo hc = ((tx, orig, rid), m) \<and>
        originalStr_memo hc = (orig, tx) \<and> rid \<le> counter st \<and> resetId hc \<le> counter st \<and>
        (\<forall>j. tx = Some j \<longrightarrow> canonical j) \<and>
        (\<exists>h. snd (memo_originalStr None h orig) = Inr tx) \<and>
        (\<exists>h h'. JSON_parse h tx = Inr (h', m)) \<and>
        (\<exists>a px. m = Ref a \<and> fst (fst (proxy_memo hc)) = m \<and>
           find_proxy st (snd (proxy_memo hc)) = Some px \<and> target px = a))"
proof -
  obtain tx orig rid m where "model_memo hc = ((tx, orig, rid), m)"
    by (metis prod.collapse)
  moreover assume "hooks st = Some hc"
  ultimately show ?thesis by (simp add: snapshot_inv_def)
qed

lemma useModel_inv:
  assumes inv: "snapshot_inv st"
    and wf: "wf_heap (heap st) \<or> (\<exists>hc. hooks st = Some hc \<and> fst (originalStr_memo hc) = original)"
    and run: "useModel E st original schema = (st', Inr (p, c))"
  shows "snapshot_inv st'"
proof -
  define rid where "rid = (case hooks st of None \<Rightarrow> counter st + 1 | Some c \<Rightarrow> resetId c)"
  define fid where "fid = (case hooks st of None \<Rightarrow> counter st + 2 | Some c \<Rightarrow> refreshId c)"
  from run obtain h1 tx h2 m st3 where
    mo: "memo_originalStr (hooks st) (heap st) original = (h1, Inr tx)"
    and mm: "memo_model (hooks st) h1 tx original rid = Inr (h2, m)"
    and mp: "memo_proxy (hooks st) (st\<lparr>counter := counter st + 2, heap := h2\<rparr>) m fid = (st3, Inr p)"
    and hk: "\<exists>hc. hooks st' = Some hc \<and> resetId hc = rid \<and> originalStr_memo hc = (original, tx) \<and>
               model_memo hc = ((tx, original, rid), m) \<and> proxy_memo hc = ((m, fid), p)"
    and st': "counter st' = counter st3" "\<And>q. find_proxy st' q = find_proxy st3 q"
    unfolding rid_def fid_def by (rule useModel_success) (simp_all add: find_proxy_def)
  from memo_proxy_result [OF mp] have c3: "counter st3 = counter st + 2" by simp
  have ridle: "rid \<le> counter st + 2"
    using inv by (cases "hooks st") (auto simp: rid_def snapshot_inv_Some)
  have canon: "\<forall>j. tx = Some j \<longrightarrow> canonical j"
    using memo_originalStr_cases [OF mo]
  proof
    assume "\<exists>c. hooks st = Some c \<and> originalStr_memo c = (original, tx) \<and> h1 = heap st"
    with inv show ?thesis by (auto simp: snapshot_inv_Some)
  next
    assume a: "(\<forall>c. hooks st = Some c \<longrightarrow> fst (originalStr_memo c) \<noteq> original) \<and>
          memo_originalStr None (heap st) original = (h1, Inr tx) \<and>
          (h1 = heap st \<or> h1 = heap st @ [PlainObj []]) \<and>
          JSON_stringify h1 (if truthy original then original else Ref (length (heap st))) = Inr tx"
    with wf have "wf_heap h1" by (auto simp: wf_heap_append)
    with a show ?thesis by (auto dest: stringify_canonical)
  qed
  have capt: "\<exists>h. snd (memo_originalStr None h original) = Inr tx"
    using memo_originalStr_cases [OF mo]
  proof
    assume "\<exists>c. hooks st = Some c \<and> originalStr_memo c = (original, tx) \<and> h1 = heap st"
    with inv show ?thesis by (auto simp: snapshot_inv_Some)
  next
    assume "(\<forall>c. hooks st = Some c \<longrightarrow> fst (originalStr_memo c) \<noteq> original) \<and>
          memo_originalStr None (heap st) original = (h1, Inr tx) \<and>
          (h1 = heap st \<or> h1 = heap st @ [PlainObj []]) \<and>
          JSON_stringify h1 (if truthy original then original else Ref (length (heap st))) = Inr tx"
    then have "snd (memo_originalStr None (heap st) original) = Inr tx" by simp
    then show ?thesis ..
  qed
  have parsed: "\<exists>h h'. JSON_parse h tx = Inr (h', m)"
    using memo_model_cases [OF mm]
  proof
    assume "\<exists>c. hooks st = Some c \<and> model_memo c = ((tx, original, rid), m) \<and> h2 = h1"
    with inv show ?thesis by (auto simp: snapshot_inv_Some)
  next
    assume "(\<forall>c. hooks st = Some c \<longrightarrow> fst (model_memo c) \<noteq> (tx, original, rid)) \<and>
          JSON_parse h1 tx = Inr (h2, m)"
    then show ?thesis by blast
  qed
  have prox: "\<exists>a px. m = Ref a \<and> find_proxy st3 p = Some px \<and> target px = a"
    using memo_proxy_cases [OF mp]
  proof
    assume "\<exists>c. hooks st = Some c \<and> proxy_memo c = ((m, fid), p) \<and>
               st3 = st\<lparr>counter := counter st + 2, heap := h2\<rparr>"
    with inv show ?thesis by (auto simp: snapshot_inv_Some)
  next
    assume "(\<forall>c. hooks st = Some c \<longrightarrow> fst (proxy_memo c) \<noteq> (m, fid)) \<and>
          (\<exists>a. m = Ref a \<and> p = length (proxies (st\<lparr>counter := counter st + 2, heap := h2\<rparr>)) \<and>
             st3 = st\<lparr>counter := counter st + 2, heap := h2\<rparr>
                    \<lparr>proxies := proxies (st\<lparr>counter := counter st + 2, heap := h2\<rparr>) @
                                [\<lparr>target = a, getMap = Map.empty\<rparr>]\<rparr>)"
    then show ?thesis by (auto simp: find_proxy_def)
  qed
  from hk obtain hc where hc: "hooks st' = Some hc" "resetId hc = rid"
    "originalStr_memo hc = (original, tx)" "model_memo hc = ((tx, original, rid), m)"
    "proxy_memo hc = ((m, fid), p)" by blast
  from prox st' have prox': "\<exists>a px. m = Ref a \<and> find_proxy st' p = Some px \<and> target px = a"
    by simp
  show ?thesis
    unfolding snapshot_inv_Some [OF hc(1)]
    using hc ridle canon capt parsed prox' st' c3 by simp
qed

lemma cells_kept_refl: "cells_kept st st"
  by (auto simp: cells_kept_def split: option.splits)

lemma cells_kept_trans:
  assumes "cells_kept st1 st2" and "cells_kept st2 st3"
  shows "cells_kept st1 st3"
proof (cases "hooks st1")
  case None
  with assms show ?thesis
    by (fastforce simp: cells_kept_def)
next
  case (Some hc)
  with assms(1) obtain hc2 where h2: "hooks st2 = Some hc2" by (auto simp: cells_kept_def)
  with assms(2) obtain hc3 where h3: "hooks st3 = Some hc3" by (auto simp: cells_kept_def)
  from assms Some h2 h3 show ?thesis
    unfolding cells_kept_def
    by (simp, intro conjI allI impI) (fastforce, auto)
qed

lemma cells_kept_fields:
  assumes "counter st \<le> counter st'" and "proxies st' = proxies st"
    and "hooks st' = hooks st \<or>
         hooks st' = map_option (\<lambda>c. c\<lparr>refreshId := n\<rparr>) (hooks st)"
  shows "cells_kept st st'"
  using assms by (auto simp: cells_kept_def find_proxy_def split: option.splits)

lemma cells_kept_intro:
  assumes "counter st \<le> counter st'"
    and "\<And>q px. find_proxy st q = Some px \<Longrightarrow>
           \<exists>px'. find_proxy st' q = Some px' \<and> target px' = target px"
    and "hooks st' = hooks st \<or>
         hooks st' = map_option (\<lambda>c. c\<lparr>refreshId := n\<rparr>) (hooks st)"
  shows "cells_kept st st'"
  unfolding cells_kept_def
proof (intro conjI allI impI)
  show "counter st \<le> counter st'" by fact
next
  fix q px assume "find_proxy st q = Some px"
  then show "\<exists>px'. find_proxy st' q = Some px' \<and> target px' = target px" by (rule assms(2))
next
  from assms(3) show "case hooks st of None \<Rightarrow> hooks st' = None
    | Some hc \<Rightarrow> \<exists>hc'. hooks st' = Some hc' \<and> originalStr_memo hc' = originalStr_memo hc \<and>
           validator_memo hc' = validator_memo hc \<and> model_memo hc' = model_memo hc \<and>
           proxy_memo hc' = proxy_memo hc \<and>
           (resetId hc' = resetId hc \<or> counter st < resetId hc' \<and> resetId hc' \<le> counter st')"
    by (auto split: option.splits)
qed

lemma cells_kept_proxy_get: "cells_kept st (fst (proxy_get E st p prop))"
proof (rule cells_kept_intro [where n = 0])
  show "counter st \<le> counter (fst (proxy_get E st p prop))"
    by (auto simp: proxy_get_def Let_def createProxy_def set_getMap_def
        split: option.splits jstype.splits val.splits)
  show "hooks (fst (proxy_get E st p prop)) = hooks st \<or>
        hooks (fst (proxy_get E st p prop)) = map_option (\<lambda>c. c\<lparr>refreshId := 0\<rparr>) (hooks st)"
    by (auto simp: proxy_get_def Let_def createProxy_def set_getMap_def
        split: option.splits jstype.splits val.splits)
  fix q px assume "find_proxy st q = Some px"
  from find_proxy_proxy_get [OF this, of E p "prop"]
  show "\<exists>px'. find_proxy (fst (proxy_get E st p prop)) q = Some px' \<and> target px' = target px"
    by blast
qed

lemma cells_kept_proxy_set: "cells_kept st (fst (proxy_set E st p prop item))"
proof (rule cells_kept_intro [where n = "counter st + 1"])
  show "counter st \<le> counter (fst (proxy_set E st p prop item))"
    by (auto simp: proxy_set_def Let_def split: option.splits sum.splits prod.splits)
  show "hooks (fst (proxy_set E st p prop item)) = hooks st \<or>
        hooks (fst (proxy_set E st p prop item)) =
          map_option (\<lambda>c. c\<lparr>refreshId := counter st + 1\<rparr>) (hooks st)"
    by (auto simp: proxy_set_def Let_def hooks_refresh split: option.splits sum.splits prod.splits)
  fix q px assume "find_proxy st q = Some px"
  from find_proxy_proxy_set [OF this, of E p "prop" item]
  show "\<exists>px'. find_proxy (fst (proxy_set E st p prop item)) q = Some px' \<and> target px' = target px"
    by blast
qed

lemma cells_kept_proxy_delete: "cells_kept st (fst (proxy_delete st p prop))"
  by (rule cells_kept_fields [where n = 0])
    (auto simp: proxy_delete_def split: option.splits sum.splits)

lemma cells_kept_call_wrapper: "cells_kept st (fst (call_wrapper E st w args))"
  by (rule cells_kept_fields [where n = "counter st + 1"])
    (auto simp: call_wrapper_def hooks_refresh split: option.splits sum.splits prod.splits val.splits)

lemma cells_kept_reset: "cells_kept st (reset st)"
  by (auto simp: cells_kept_def reset_def find_proxy_def split: option.splits)

lemma cells_kept_apply_event:
  "(\<And>original schema. ev \<noteq> Render original schema) \<Longrightarrow> cells_kept st (apply_event E st ev)"
  by (cases ev)
    (auto simp: cells_kept_proxy_get cells_kept_proxy_set cells_kept_proxy_delete
      cells_kept_call_wrapper cells_kept_reset)

lemma cells_kept_failed_render:
  assumes "snd (useModel E st original schema) = Inl e"
  shows "cells_kept st (fst (useModel E st original schema))"
proof (rule cells_kept_intro [where n = 0])
  from useModel_frame [of E st original schema] assms
  show "counter st \<le> counter (fst (useModel E st original schema))"
    and "hooks (fst (useModel E st original schema)) = hooks st \<or>
         hooks (fst (useModel E st original schema)) =
           map_option (\<lambda>c. c\<lparr>refreshId := 0\<rparr>) (hooks st)"
    by auto
  fix q px assume "find_proxy st q = Some px"
  then show "\<exists>px'. find_proxy (fst (useModel E st original schema)) q = Some px' \<and>
                 target px' = target px"
    by (simp add: find_proxy_useModel)
qed

lemma snapshot_inv_kept:
  assumes "snapshot_inv st" and "cells_kept st st'"
  shows "snapshot_inv st'"
proof (cases "hooks st")
  case None
  with assms(2) show ?thesis by (simp add: cells_kept_def snapshot_inv_def)
next
  case (Some hc)
  with assms(2) obtain hc' where hc': "hooks st' = Some hc'"
    "originalStr_memo hc' = originalStr_memo hc" "model_memo hc' = model_memo hc"
    "proxy_memo hc' = proxy_memo hc"
    "resetId hc' = resetId hc \<or> counter st < resetId hc' \<and> resetId hc' \<le> counter st'"
    and cnt: "counter st \<le> counter st'"
    and fp: "\<And>p px. find_proxy st p = Some px \<Longrightarrow>
               \<exists>px'. find_proxy st' p = Some px' \<and> target px' = target px"
    by (auto simp: cells_kept_def)
  from assms(1) have "\<exists>tx orig rid m a px. model_memo hc = ((tx, orig, rid), m) \<and>
    originalStr_memo hc = (orig, tx) \<and> rid \<le> counter st \<and> resetId hc \<le> counter st \<and>
    (\<forall>j. tx = Some j \<longrightarrow> canonical j) \<and>
    (\<exists>h. snd (memo_originalStr None h orig) = Inr tx) \<and>
    (\<exists>h h'. JSON_parse h tx = Inr (h', m)) \<and>
    m = Ref a \<and> fst (fst (proxy_memo hc)) = m \<and>
    find_proxy st (snd (proxy_memo hc)) = Some px \<and> target px = a"
    unfolding snapshot_inv_Some [OF Some] by blast
  then obtain tx orig rid m a px where i: "model_memo hc = ((tx, orig, rid), m)"
    "originalStr_memo hc = (orig, tx)" "rid \<le> counter st" "resetId hc \<le> counter st"
    "\<forall>j. tx = Some j \<longrightarrow> canonical j"
    "\<exists>h. snd (memo_originalStr None h orig) = Inr tx"
    "\<exists>h h'. JSON_parse h tx = Inr (h', m)"
    "m = Ref a" "fst (fst (proxy_memo hc)) = m"
    "find_proxy st (snd (proxy_memo hc)) = Some px" "target px = a"
    by blast
  from fp [OF i(10)] i(11) obtain px' where
    "find_proxy st' (snd (proxy_memo hc)) = Some px'" "target px' = a" by auto
  with hc' cnt i show ?thesis
    unfolding snapshot_inv_Some [OF hc'(1)] by auto
qed

section \<open>Invariants of the reachable states\<close>

lemma digit_val_inj: "digit_val c = Some d \<Longrightarrow> digit_val c' = Some d \<Longrightarrow> c = c'"
proof -
  assume a: "digit_val c = Some d" "digit_val c' = Some d"
  define m where "m = (of_char c :: nat)"
  define m' where "m' = (of_char c' :: nat)"
  from a have "48 \<le> m" "48 \<le> m'" "m - 48 = d" "m' - 48 = d"
    by (simp_all add: digit_val_def Let_def m_def m'_def split: if_splits)
  then have "m = m'" by arith
  then show "c = c'" by (simp add: m_def m'_def)
qed

lemma digit_val_less: "digit_val c = Some d \<Longrightarrow> d < 10"
  by (auto simp: digit_val_def Let_def split: if_splits)

lemma digit_val_zero: "digit_val c = Some 0 \<Longrightarrow> c = CHR ''0''"
  by (rule digit_val_inj [of c 0]) (simp_all add: digit_val_def)

lemma decimal_snoc:
  "decimal acc (s @ [c]) =
     (case decimal acc s of
        None \<Rightarrow> None
      | Some x \<Rightarrow> (case digit_val c of None \<Rightarrow> None | Some d \<Rightarrow> Some (10 * x + d)))"
  by (induction s arbitrary: acc) (auto split: option.splits)

lemma no_leading_zero_butlast: "no_leading_zero (s @ [c]) \<Longrightarrow> no_leading_zero s"
  by (cases s) (auto simp: no_leading_zero_def)

lemma decimal_zero:
  "no_leading_zero s \<Longrightarrow> decimal 0 s = Some 0 \<Longrightarrow> s = []"
proof (induction s rule: rev_induct)
  case Nil
  show ?case by simp
next
  case (snoc c s)
  from snoc.prems(2) obtain y d where y: "decimal 0 s = Some y" and d: "digit_val c = Some d"
    and z: "10 * y + d = 0"
    by (auto simp: decimal_snoc split: option.splits)
  from z have "y = 0" "d = 0" by simp_all
  with snoc.IH [OF no_leading_zero_butlast [OF snoc.prems(1)]] y have "s = []" by simp
  moreover from d \<open>d = 0\<close> have "c = CHR ''0''" by (simp add: digit_val_zero)
  ultimately show ?case using snoc.prems(1) by (simp add: no_leading_zero_def)
qed

lemma decimal_inj:
  "no_leading_zero s \<Longrightarrow> no_leading_zero t \<Longrightarrow> decimal 0 s = Some x \<Longrightarrow>
   decimal 0 t = Some x \<Longrightarrow> s = t"
proof (induction s arbitrary: t x rule: rev_induct)
  case Nil
  then show ?case using decimal_zero [of t] by simp
next
  case (snoc c s)
  from snoc.prems(3) obtain y d where y: "decimal 0 s = Some y" and d: "digit_val c = Some d"
    and x: "x = 10 * y + d"
    by (auto simp: decimal_snoc split: option.splits)
  show ?case
  proof (cases t rule: rev_cases)
    case Nil
    with snoc.prems(4) have "x = 0" by simp
    with snoc.prems(1,3) decimal_zero [of "s @ [c]"] show ?thesis by simp
  next
    case (snoc t' c')
    with snoc.prems(4) obtain y' d' where y': "decimal 0 t' = Some y'"
      and d': "digit_val c' = Some d'" and x': "x = 10 * y' + d'"
      by (auto simp: decimal_snoc split: option.splits)
    from digit_val_less [OF d] digit_val_less [OF d'] x x' have "y = y'" "d = d'" by arith+
    with d d' have "c = c'" by (auto intro: digit_val_inj)
    moreover from \<open>y = y'\<close> y y' snoc.prems(1,2) \<open>t = t' @ [c']\<close>
    have "s = t'" by (intro snoc.IH [of t' y]) (auto dest: no_leading_zero_butlast)
    ultimately show ?thesis using \<open>t = t' @ [c']\<close> by simp
  qed
qed

lemma array_index_cases:
  assumes "array_index s = Some n"
  shows "decimal 0 s = Some n \<and> s \<noteq> [] \<and> (s = ''0'' \<or> no_leading_zero s)"
proof -
  from assms have a: "s \<noteq> []" "\<not> (hd s = CHR ''0'' \<and> tl s \<noteq> [])" "decimal 0 s = Some n"
    by (auto simp: array_index_def split: if_splits option.splits)
  then have "s = ''0'' \<or> no_leading_zero s"
    by (cases s) (auto simp: no_leading_zero_def)
  with a show ?thesis by simp
qed

lemma array_index_inj:
  assumes "array_index s = Some n" and "array_index t = Some n"
  shows "s = t"
proof -
  note a = array_index_cases [OF assms(1)] and b = array_index_cases [OF assms(2)]
  have z: "decimal 0 ''0'' = Some 0" by (simp add: digit_val_def)
  show ?thesis
  proof (cases "s = ''0''")
    case True
    with a z have n: "n = 0" by simp
    show ?thesis
    proof (cases "t = ''0''")
      case False
      with b n decimal_zero [of t] show ?thesis by auto
    qed (use True in simp)
  next
    case False
    show ?thesis
    proof (cases "t = ''0''")
      case True
      with b z have "n = 0" by simp
      with a False decimal_zero [of s] show ?thesis by auto
    next
      case f: False
      with a b False show ?thesis by (auto intro: decimal_inj)
    qed
  qed
qed

lemma keys_replace_prop: "map fst (replace_prop k v ps) = map fst ps"
  by (induction ps) auto

lemma keys_insert_index:
  "set (map fst (insert_index n k v ps)) = insert k (set (map fst ps))"
proof (induction ps)
  case Nil
  show ?case by simp
next
  case (Cons kv ps)
  obtain k' v' where "kv = (k', v')" by (cases kv)
  with Cons show ?case by (cases "array_index k'") (simp_all add: insert_commute)
qed

lemma key_before_index:
  "array_index k = Some n \<Longrightarrow> key_before k x = (case array_index x of None \<Rightarrow> True | Some l \<Rightarrow> n < l)"
  by (simp add: key_before_def split: option.splits)

lemma key_ok_insert_index:
  assumes "key_ok (map fst ps)" and "k \<notin> set (map fst ps)" and "array_index k = Some n"
  shows "key_ok (map fst (insert_index n k v ps))"
  using assms(1,2)
proof (induction ps)
  case Nil
  then show ?case by (simp add: key_ok_def)
next
  case (Cons kv ps)
  obtain k' v' where kv: "kv = (k', v')" by (cases kv)
  from Cons.prems kv have ok: "key_ok (map fst ps)" and nk: "k \<notin> set (map fst ps)" and ne: "k' \<noteq> k"
    and d: "k' \<notin> set (map fst ps)" and bf: "\<forall>x\<in>set (map fst ps). key_before k' x"
    by (auto simp: key_ok_def)
  show ?case
  proof (cases "array_index k'")
    case None
    have "\<forall>x\<in>set (map fst ps). key_before k x"
    proof
      fix x assume "x \<in> set (map fst ps)"
      with bf have "key_before k' x" by blast
      with None have "array_index x = None" by (simp add: key_before_def split: option.splits)
      then show "key_before k x" by (simp add: key_before_def)
    qed
    moreover from None have "key_before k k'" by (simp add: key_before_def)
    ultimately show ?thesis using None kv Cons.prems ne by (auto simp: key_ok_def)
  next
    case (Some m)
    show ?thesis
    proof (cases "m < n")
      case True
      from Cons.IH [OF ok nk] have ih: "key_ok (map fst (insert_index n k v ps))" .
      from True Some assms(3) have "key_before k' k" by (simp add: key_before_def)
      with bf have "\<forall>x\<in>set (map fst (insert_index n k v ps)). key_before k' x"
        by (simp only: keys_insert_index) simp
      moreover from d ne have "k' \<notin> set (map fst (insert_index n k v ps))"
        by (simp only: keys_insert_index) simp
      ultimately show ?thesis using ih True Some kv by (simp add: key_ok_def)
    next
      case False
      from ne Some assms(3) array_index_inj [of k' n k] have "m \<noteq> n" by auto
      with False have nm: "n < m" by simp
      have "\<forall>x\<in>set (map fst ps). key_before k x"
      proof
        fix x assume "x \<in> set (map fst ps)"
        with bf have "key_before k' x" by blast
        with Some nm assms(3) show "key_before k x"
          by (auto simp: key_before_index split: option.splits)
      qed
      moreover from nm Some assms(3) have "key_before k k'" by (simp add: key_before_index)
      ultimately show ?thesis using False Some kv Cons.prems ne by (auto simp: key_ok_def)
    qed
  qed
qed

lemma key_ok_define_prop:
  assumes "key_ok (map fst ps)"
  shows "key_ok (map fst (define_prop k v ps))"
proof (cases "k \<in> fst ` set ps")
  case True
  with assms show ?thesis by (simp add: define_prop_def keys_replace_prop)
next
  case False
  show ?thesis
  proof (cases "array_index k")
    case None
    then have "\<forall>x\<in>set (map fst ps). key_before x k" by (simp add: key_before_def)
    with assms False None show ?thesis
      by (auto simp: define_prop_def key_ok_def sorted_wrt_append)
  next
    case (Some n)
    with assms False key_ok_insert_index [of ps k n v] show ?thesis
      by (simp add: define_prop_def)
  qed
qed

lemma key_ok_filter: "key_ok (map fst ps) \<Longrightarrow> key_ok (map fst (filter P ps))"
proof (induction ps)
  case Nil
  then show ?case by simp
next
  case (Cons kv ps)
  then have "key_ok (map fst (filter P ps))" by (simp add: key_ok_def)
  with Cons.prems show ?case by (auto simp: key_ok_def)
qed

lemma wf_heap_update: "wf_heap h \<Longrightarrow> wf_obj ob \<Longrightarrow> wf_heap (h[a := ob])"
  using set_update_subset_insert [of h a ob] by (auto simp: wf_heap_def list_all_iff)

lemma wf_heap_lookup: "wf_heap h \<Longrightarrow> lookup h a = Some ob \<Longrightarrow> wf_obj ob"
  by (auto simp: wf_heap_def lookup_def list_all_length split: if_splits)

lemma wf_js_set: "wf_heap h \<Longrightarrow> js_set h a k v = Inr h' \<Longrightarrow> wf_heap h'"
  by (auto simp: js_set_def split: option.splits obj.splits if_splits sum.splits
      intro!: wf_heap_update key_ok_define_prop dest: wf_heap_lookup)

lemma wf_js_delete: "wf_heap h \<Longrightarrow> js_delete h a k = Inr h' \<Longrightarrow> wf_heap h'"
  by (auto simp: js_delete_def split: option.splits obj.splits if_splits
      intro!: wf_heap_update key_ok_filter dest: wf_heap_lookup)

lemma wf_parse:
  shows "parse_val h j = (h', v) \<Longrightarrow> wf_heap h \<Longrightarrow> wf_heap h'"
    and "parse_members h acc ms = (h', ps) \<Longrightarrow> wf_heap h \<Longrightarrow> key_ok (map fst acc) \<Longrightarrow>
           wf_heap h' \<and> key_ok (map fst ps)"
    and "parse_elements h js = (h', vs) \<Longrightarrow> wf_heap h \<Longrightarrow> wf_heap h'"
proof (induction h j and h acc ms and h js arbitrary: h' v and h' ps and h' vs
    rule: parse_val_parse_members_parse_elements.induct)
  case (5 h js)
  then show ?case by (auto simp: wf_heap_append wf_heap_def split: prod.splits)
next
  case (6 h ms)
  obtain h1 ps where pm: "parse_members h [] ms = (h1, ps)" by (cases "parse_members h [] ms")
  from "6.IH" [OF pm] "6.prems" have "wf_heap h1 \<and> key_ok (map fst ps)" by (simp add: key_ok_def)
  with "6.prems" pm show ?case by (auto simp: wf_heap_append wf_heap_def)
next
  case (8 h acc k j ms)
  obtain h1 v1 where pv: "parse_val h j = (h1, v1)" by (cases "parse_val h j")
  with "8.prems" have pm: "parse_members h1 (define_prop k v1 acc) ms = (h', ps)" by simp
  from "8.IH"(1) [OF pv] "8.prems" have "wf_heap h1" by simp
  with "8.IH"(2) [OF pv [symmetric] pm] "8.prems" show ?case by (simp add: key_ok_define_prop)
next
  case (10 h j js)
  obtain h1 v1 where pv: "parse_val h j = (h1, v1)" by (cases "parse_val h j")
  obtain h2 vs2 where pe: "parse_elements h1 js = (h2, vs2)" by (cases "parse_elements h1 js")
  from "10.prems" pv pe have "h' = h2" by simp
  with "10.IH"(1) [OF pv] "10.IH"(2) [OF pv [symmetric] pe] "10.prems" show ?case by simp
qed auto

lemma wf_json_copy: "wf_heap h \<Longrightarrow> json_copy h item = Inr (h', v) \<Longrightarrow> wf_heap h'"
  by (auto simp: json_copy_def JSON_parse_def split: if_splits sum.splits option.splits
      dest: wf_parse(1))

lemma heap_proxy_get: "heap (fst (proxy_get E st p k)) = heap st"
  by (auto simp: proxy_get_def Let_def createProxy_def set_getMap_def
      split: option.splits jstype.splits val.splits)

lemma wf_proxy_set:
  assumes "wf_heap (heap st)"
  shows "wf_heap (heap (fst (proxy_set E st p k item)))"
proof (cases "find_proxy st p")
  case None
  with assms show ?thesis by (simp add: proxy_set_def)
next
  case (Some px)
  show ?thesis
  proof (cases "js_get E (heap st) (target px) k = item")
    case True
    with Some assms show ?thesis by (simp add: proxy_set_def)
  next
    case False
    show ?thesis
    proof (cases "json_copy (heap st) item")
      case (Inl e)
      with Some False assms show ?thesis by (simp add: proxy_set_def Let_def)
    next
      case (Inr hv)
      obtain h2 v where hv: "hv = (h2, v)" by (cases hv)
      with Inr assms have w2: "wf_heap h2" by (auto dest: wf_json_copy)
      show ?thesis
      proof (cases "js_set h2 (target px) k v")
        case (Inl e)
        with Some False Inr hv w2 show ?thesis by (simp add: proxy_set_def Let_def)
      next
        case r: (Inr h3)
        with w2 have "wf_heap h3" by (auto dest: wf_js_set)
        with Some False Inr hv r show ?thesis by (simp add: proxy_set_def Let_def)
      qed
    qed
  qed
qed

lemma wf_proxy_delete:
  "wf_heap (heap st) \<Longrightarrow> wf_heap (heap (fst (proxy_delete st p k)))"
  by (auto simp: proxy_delete_def split: option.splits sum.splits dest: wf_js_delete)

lemma wf_call_wrapper:
  assumes "wf_env E" and "wf_heap (heap st)"
  shows "wf_heap (heap (fst (call_wrapper E st w args)))"
proof -
  have "wf_heap (fst (call E f (heap st) a args))" for f a
    using assms by (simp add: wf_env_def)
  then have "call E f (heap st) a args = (h', r) \<Longrightarrow> wf_heap h'" for f a h' r
    by (metis fst_conv)
  with assms(2) show ?thesis
    by (auto simp: call_wrapper_def split: prod.splits sum.splits val.splits)
qed

lemma wf_useModel:
  assumes "wf_heap (heap st)"
  shows "wf_heap (heap (fst (useModel E st original schema)))"
proof -
  have o: "wf_heap h1" if "memo_originalStr (hooks st) (heap st) original = (h1, r)" for h1 r
    using that assms
    by (auto simp: memo_originalStr_def wf_heap_append split: option.splits if_splits)
  have m: "wf_heap h2" if "wf_heap h1" "memo_model (hooks st) h1 tx original rid = Inr (h2, v)"
    for h1 h2 tx rid v
    using that
    by (auto simp: memo_model_def JSON_parse_def split: option.splits if_splits dest: wf_parse(1))
  have p: "heap st3 = heap s" if "memo_proxy (hooks st) s v fid = (st3, r)" for s st3 v fid r
    using that
    by (auto simp: memo_proxy_def createProxy_def split: option.splits if_splits val.splits)
  show ?thesis
    by (auto simp: useModel_def Let_def split: prod.splits sum.splits dest!: o p dest: m)
qed

lemma wf_apply_event:
  "wf_env E \<Longrightarrow> wf_heap (heap st) \<Longrightarrow> wf_heap (heap (apply_event E st ev))"
  by (cases ev)
    (simp_all add: heap_proxy_get wf_proxy_set wf_proxy_delete wf_call_wrapper wf_useModel reset_def)

lemma snapshot_inv_apply_event:
  assumes inv: "snapshot_inv st" and wf: "wf_heap (heap st)"
  shows "snapshot_inv (apply_event E st ev)"
proof (cases "\<exists>original schema. ev = Render original schema")
  case False
  then have "cells_kept st (apply_event E st ev)" by (intro cells_kept_apply_event) blast
  with inv show ?thesis by (rule snapshot_inv_kept)
next
  case True
  then obtain original schema where ev: "ev = Render original schema" by blast
  show ?thesis
  proof (cases "snd (useModel E st original schema)")
    case (Inl e)
    from snapshot_inv_kept [OF inv cells_kept_failed_render [OF Inl]] ev show ?thesis by simp
  next
    case (Inr pc)
    obtain p c where "pc = (p, c)" by (cases pc)
    with Inr have "useModel E st original schema = (fst (useModel E st original schema), Inr (p, c))"
      by (simp add: prod_eq_iff)
    from useModel_inv [OF inv _ this] wf ev show ?thesis by simp
  qed
qed

lemma reachable_invariants:
  assumes "wf_env E" and "reachable E st"
  shows "wf_heap (heap st) \<and> snapshot_inv st"
  using assms(2)
proof (induction rule: reachable.induct)
  case (unmounted h n)
  then show ?case by (simp add: snapshot_inv_def)
next
  case (event st ev)
  with assms(1) show ?case by (simp add: wf_apply_event snapshot_inv_apply_event)
qed

lemma wf_demo_env: "wf_env demo_env"
  unfolding wf_env_def
proof (intro allI impI)
  fix f h a args assume w: "wf_heap h"
  show "wf_heap (fst (call demo_env f h a args))"
  proof (cases "lookup h a")
    case None
    with w show ?thesis by (simp add: demo_env_def native_call_def)
  next
    case (Some ob)
    with w show ?thesis
      by (cases ob) (auto simp: demo_env_def native_call_def wf_heap_append wf_heap_def
          intro!: wf_heap_update [unfolded wf_heap_def])
  qed
qed

section \<open>Dirty checking, re-derivation and reset\<close>

lemma parse_grows:
  shows "parse_val h j = (h', v) \<Longrightarrow> length h \<le> length h'"
    and "parse_members h acc ms = (h', ps) \<Longrightarrow> length h \<le> length h'"
    and "parse_elements h js = (h', vs) \<Longrightarrow> length h \<le> length h'"
proof (induction h j and h acc ms and h js arbitrary: h' v and h' ps and h' vs
    rule: parse_val_parse_members_parse_elements.induct)
  case (5 h js)
  then show ?case by (auto split: prod.splits)
next
  case (6 h ms)
  then show ?case by (auto split: prod.splits)
next
  case (8 h acc k j ms)
  obtain h1 v1 where pv: "parse_val h j = (h1, v1)" by (cases "parse_val h j")
  with "8.prems" have pm: "parse_members h1 (define_prop k v1 acc) ms = (h', ps)" by simp
  from "8.IH"(1) [OF pv] "8.IH"(2) [OF pv [symmetric] pm] show ?case by simp
next
  case (10 h j js)
  obtain h1 v1 where pv: "parse_val h j = (h1, v1)" by (cases "parse_val h j")
  obtain h2 vs2 where pe: "parse_elements h1 js = (h2, vs2)" by (cases "parse_elements h1 js")
  from "10.prems" pv pe have "h' = h2" by simp
  with "10.IH"(1) [OF pv] "10.IH"(2) [OF pv [symmetric] pe] show ?case by simp
qed auto

lemma parse_val_fresh:
  assumes "parse_val h j = (h', Ref a)"
  shows "length h \<le> a \<and> a < length h'"
proof (cases j)
  case (JArr js)
  obtain h1 vs where pe: "parse_elements h js = (h1, vs)" by (cases "parse_elements h js")
  with assms JArr parse_grows(3) [OF pe] show ?thesis by auto
next
  case (JObj ms)
  obtain h1 ps where pm: "parse_members h [] ms = (h1, ps)" by (cases "parse_members h [] ms")
  with assms JObj parse_grows(2) [OF pm] show ?thesis by auto
qed (use assms in auto)

lemma isDirty_cases:
  "(isDirty st c = Inr True \<longleftrightarrow>
      (\<exists>tx. JSON_stringify (heap st) (model c) = Inr tx \<and> tx \<noteq> originalStr c)) \<and>
   (isDirty st c = Inr False \<longleftrightarrow> JSON_stringify (heap st) (model c) = Inr (originalStr c)) \<and>
   (isDirty st c = Inl e \<longleftrightarrow> JSON_stringify (heap st) (model c) = Inl e)"
  by (auto simp: isDirty_def split: sum.splits)

lemma useModel_heap:
  assumes "useModel E st original schema = (st', Inr (p, c))"
  obtains h1 h2 where
    "memo_originalStr (hooks st) (heap st) original = (h1, Inr (originalStr c))"
    "memo_model (hooks st) h1 (originalStr c) original
       (case hooks st of None \<Rightarrow> counter st + 1 | Some hc \<Rightarrow> resetId hc) = Inr (h2, model c)"
    "heap st' = h2"
proof -
  from assms obtain h1 tx h2 m st3 where
    a: "memo_originalStr (hooks st) (heap st) original = (h1, Inr tx)"
    "memo_model (hooks st) h1 tx original
       (case hooks st of None \<Rightarrow> counter st + 1 | Some c \<Rightarrow> resetId c) = Inr (h2, m)"
    and mp: "memo_proxy (hooks st) (st\<lparr>counter := counter st + 2, heap := h2\<rparr>) m
       (case hooks st of None \<Rightarrow> counter st + 2 | Some c \<Rightarrow> refreshId c) = (st3, Inr p)"
    and b: "heap st' = heap st3" "model c = m" "originalStr c = tx"
    by (rule useModel_success) simp
  from memo_proxy_result [OF mp] b have "heap st' = h2" by simp
  with a b that show ?thesis by simp
qed

lemma rederived_clean:
  assumes "JSON_parse h1 tx = Inr (h2, m)" and "\<forall>j. tx = Some j \<longrightarrow> canonical j"
  shows "JSON_stringify h2 m = Inr tx"
  using assms by (auto simp: JSON_parse_def split: option.splits intro: stringify_parse)

lemma useModel_model_object:
  assumes "snapshot_inv st" and "useModel E st original schema = (st', Inr (p, c))"
  shows "\<exists>a px. model c = Ref a \<and> find_proxy st' p = Some px \<and> target px = a"
proof -
  from assms(2) obtain h1 tx h2 m st3 where
    mp: "memo_proxy (hooks st) (st\<lparr>counter := counter st + 2, heap := h2\<rparr>) m
       (case hooks st of None \<Rightarrow> counter st + 2 | Some c \<Rightarrow> refreshId c) = (st3, Inr p)"
    and b: "model c = m" "\<And>q. find_proxy st' q = find_proxy st3 q"
    by (rule useModel_success) (simp add: find_proxy_def)
  from memo_proxy_cases [OF mp] show ?thesis
  proof
    assume "\<exists>c. hooks st = Some c \<and> proxy_memo c =
       ((m, case hooks st of None \<Rightarrow> counter st + 2 | Some c \<Rightarrow> refreshId c), p) \<and>
       st3 = st\<lparr>counter := counter st + 2, heap := h2\<rparr>"
    then obtain hc where "hooks st = Some hc" "fst (fst (proxy_memo hc)) = m"
      "snd (proxy_memo hc) = p" "st3 = st\<lparr>counter := counter st + 2, heap := h2\<rparr>" by auto
    with assms(1) b show ?thesis by (auto simp: snapshot_inv_Some)
  next
    assume "(\<forall>c. hooks st = Some c \<longrightarrow> fst (proxy_memo c) \<noteq>
        (m, case hooks st of None \<Rightarrow> counter st + 2 | Some c \<Rightarrow> refreshId c)) \<and>
      (\<exists>a. m = Ref a \<and> p = length (proxies (st\<lparr>counter := counter st + 2, heap := h2\<rparr>)) \<and>
           st3 = st\<lparr>counter := counter st + 2, heap := h2\<rparr>
                  \<lparr>proxies := proxies (st\<lparr>counter := counter st + 2, heap := h2\<rparr>) @
                              [\<lparr>target = a, getMap = Map.empty\<rparr>]\<rparr>)"
    with b show ?thesis by (auto simp: find_proxy_def)
  qed
qed

lemma reachable_render:
  "reachable E st \<Longrightarrow> useModel E st original schema = (st', r) \<Longrightarrow> reachable E st'"
  using reachable.event [of E st "Render original schema"] by simp



text \<open>
  C4 (as amended). When the Original is replaced by another reference, whatever the
  content and key order of the new object, the render that sees the swap serializes the
  new Original, parses the snapshot anew from that text, and \<open>isDirty()\<close> reports false
  immediately afterwards.
\<close>

theorem swap_rederives_clean:
  assumes env: "wf_env E" and re: "reachable E st" and hk: "hooks st = Some hc"
    and swap: "fst (originalStr_memo hc) \<noteq> original"
    and run: "useModel E st original schema = (st', Inr (p, c))"
  shows "isDirty st' c = Inr False \<and>
         JSON_stringify (heap st') (model c) = Inr (originalStr c) \<and>
         (\<exists>h. (h = heap st \<or> h = heap st @ [PlainObj []]) \<and>
            JSON_stringify h (if truthy original then original else Ref (length (heap st)))
              = Inr (originalStr c) \<and>
            JSON_parse h (originalStr c) = Inr (heap st', model c))"
proof -
  from reachable_invariants [OF env re] have inv: "snapshot_inv st" and wf: "wf_heap (heap st)"
    by blast+
  obtain tx0 orig0 rid0 m0 where mm: "model_memo hc = ((tx0, orig0, rid0), m0)"
    by (metis prod.collapse)
  from inv hk mm have cell: "originalStr_memo hc = (orig0, tx0)"
    unfolding snapshot_inv_Some [OF hk] by auto
  with swap have ne: "original \<noteq> orig0" by auto
  from run obtain h1 h2 where
    mo: "memo_originalStr (hooks st) (heap st) original = (h1, Inr (originalStr c))"
    and pm: "memo_model (hooks st) h1 (originalStr c) original (resetId hc) = Inr (h2, model c)"
    and h2: "heap st' = h2"
    by (rule useModel_heap) (simp add: hk)
  from memo_originalStr_cases [OF mo] hk swap
  have h1: "h1 = heap st \<or> h1 = heap st @ [PlainObj []]"
    and ser: "JSON_stringify h1 (if truthy original then original else Ref (length (heap st)))
                = Inr (originalStr c)"
    by auto
  from h1 wf have "wf_heap h1" by (auto simp: wf_heap_append)
  with ser have canon: "\<forall>j. originalStr c = Some j \<longrightarrow> canonical j"
    by (auto dest: stringify_canonical)
  from memo_model_cases [OF pm] ne hk mm
  have jp: "JSON_parse h1 (originalStr c) = Inr (h2, model c)" by auto
  from rederived_clean [OF jp canon] h2
  have clean: "JSON_stringify (heap st') (model c) = Inr (originalStr c)" by simp
  then have "isDirty st' c = Inr False" by (simp add: isDirty_def)
  with clean h1 ser jp h2 show ?thesis by blast
qed


section \<open>Worked scenarios\<close>

lemmas render_defs = useModel_def memo_originalStr_def memo_model_def memo_validator_def
  memo_proxy_def JSON_stringify_def JSON_parse_def createProxy_def lookup_def define_prop_def
  array_index_def digit_val_def demo_env_def Let_def

lemmas family_defs = family_start_def family_heap_def family_text_def family_cells_def
  family_model_heap_def family_mounted_def family_control_def

text \<open>
  Mounting the component on the family Original clones it to the addresses 3 to 5.
\<close>

lemma family_mount:
  "useModel demo_env family_start (Ref 0) Null = (family_mounted, Inr (0, family_control))"
  by (simp add: render_defs family_defs)

lemma wf_family_heap: "wf_heap family_heap"
  by (simp add: wf_heap_def family_heap_def key_ok_def key_before_def array_index_def digit_val_def)

lemma family_clean: "isDirty family_mounted family_control = Inr False"
  by (simp add: isDirty_def render_defs family_defs)

lemmas proxy_defs = proxy_get_def proxy_set_def find_proxy_def set_getMap_def js_get_def js_set_def
  json_copy_def refresh_def call_wrapper_def object_proto_def array_proto_def native_call_def

lemma family_write_dirty:
  "isDirty (fst (proxy_set demo_env family_mounted 0 ''name'' (Str ''Jo''))) family_control = Inr True"
  by (simp add: isDirty_def render_defs family_defs proxy_defs)

lemma find_root: "find_proxy family_mounted 0 = Some root_proxy"
  by (simp add: find_proxy_def family_mounted_def root_proxy_def)

lemma family_name: "js_get demo_env (heap family_mounted) (target root_proxy) ''name'' = Str ''Jochen''"
  by (simp add: js_get_def lookup_def family_defs root_proxy_def)

text \<open>
  Writing the name it already has leaves the mounted state untouched.
\<close>

theorem proxy_set_identical_noop_witness:
  "find_proxy family_mounted 0 = Some root_proxy \<and>
   js_get demo_env (heap family_mounted) (target root_proxy) ''name'' = Str ''Jochen'' \<and>
   proxy_set demo_env family_mounted 0 ''name'' (Str ''Jochen'') = (family_mounted, Inr True)"
  using proxy_set_identical_noop [where st = family_mounted and p = 0 and px = root_proxy
      and E = demo_env and key = "''name''" and item = "Str ''Jochen''"]
    find_root family_name
  by simp

lemma family_read_eval:
  "proxy_get demo_env family_mounted 0 ''children'' = (family_read, Inr (ProxyRef 1))"
  "find_proxy family_read 0 = Some (root_proxy\<lparr>getMap := [''children'' \<mapsto> 1]\<rparr>)"
  "find_proxy family_read 1 = Some \<lparr>target = 4, getMap = Map.empty\<rparr>"
  "heap family_read = family_model_heap"
  "length (proxies family_read) = 2"
  "counter family_read = 2"
  by (simp_all add: family_read_def proxy_defs family_defs lookup_def array_index_def digit_val_def
      createProxy_def Let_def root_proxy_def demo_env_def)

lemmas eval_defs = render_defs proxy_defs family_defs root_proxy_def child_cached_def
  family_copy_heap_def family_replaced_heap_def

lemma family_replace_eval:
  "js_get demo_env (heap family_read) (target child_cached) ''children'' = Ref 4"
  "json_copy (heap family_read) (Ref 1) = Inr (family_copy_heap, Ref 7)"
  "js_set family_copy_heap (target child_cached) ''children'' (Ref 7) = Inr family_replaced_heap"
  by (simp_all add: family_read_eval eval_defs)

text \<open>
  Replacing the children by the Original's array clones that array, drops the cached
  child proxy and advances the refresh indicator.
\<close>

theorem proxy_set_effective_witness:
  "find_proxy family_read 0 = Some child_cached \<and>
   js_get demo_env (heap family_read) (target child_cached) ''children'' \<noteq> Ref 1 \<and>
   json_copy (heap family_read) (Ref 1) = Inr (family_copy_heap, Ref 7) \<and>
   js_set family_copy_heap (target child_cached) ''children'' (Ref 7) = Inr family_replaced_heap \<and>
   snd (proxy_set demo_env family_read 0 ''children'' (Ref 1)) = Inr True \<and>
   find_proxy family_replaced 0 = Some root_proxy \<and>
   heap family_replaced = family_replaced_heap \<and>
   js_get demo_env family_replaced_heap (target child_cached) ''children'' = Ref 7 \<and>
   JSON_stringify (heap family_read) (Ref 1) = Inr (Some (JArr [JObj [(''age'', JNum 3)]])) \<and>
   counter family_replaced = counter family_read + 1 \<and>
   map_option refreshId (hooks family_replaced) = Some 3"
proof -
  have a: "find_proxy family_read 0 = Some child_cached"
    by (simp add: family_read_eval child_cached_def)
  have b: "js_get demo_env (heap family_read) (target child_cached) ''children'' \<noteq> Ref 1"
    by (simp add: family_replace_eval)
  note t = proxy_set_effective [OF a b family_replace_eval(2,3)]
  have c: "child_cached\<lparr>getMap := (getMap child_cached)(''children'' := None)\<rparr> = root_proxy"
    by (simp add: child_cached_def root_proxy_def)
  have d: "hooks family_read = Some family_cells"
    by (simp add: family_read_def eval_defs createProxy_def)
  have e: "JSON_stringify (heap family_read) (Ref 1) = Inr (Some (JArr [JObj [(''age'', JNum 3)]]))"
    by (simp add: family_read_eval eval_defs)
  from t have r: "snd (proxy_set demo_env family_read 0 ''children'' (Ref 1)) = Inr True"
    by simp
  from t have f: "find_proxy family_replaced 0 =
      Some (child_cached\<lparr>getMap := (getMap child_cached)(''children'' := None)\<rparr>)"
    unfolding family_replaced_def by blast
  from t have h: "heap family_replaced = family_replaced_heap"
    unfolding family_replaced_def by blast
  from t have g: "js_get demo_env family_replaced_heap (target child_cached) ''children'' = Ref 7"
    by blast
  from t have n: "counter family_replaced = counter family_read + 1"
    unfolding family_replaced_def by blast
  from t have "hooks family_replaced =
      map_option (\<lambda>c. c\<lparr>refreshId := counter family_read + 1\<rparr>) (hooks family_read)"
    unfolding family_replaced_def by blast
  then have k: "map_option refreshId (hooks family_replaced) = Some 3"
    by (simp add: d family_read_eval)
  from a b family_replace_eval(2,3) r f [unfolded c] h g e n k show ?thesis by blast
qed

text \<open>
  C5 as stated fails for a function: \<open>JSON.stringify\<close> returns \<open>undefined\<close> for it, so
  \<open>JSON.parse\<close> throws; nothing is stored and no refresh is fired.
\<close>

theorem proxy_set_function_counterexample:
  "js_get demo_env (heap family_mounted) (target root_proxy) ''name'' \<noteq> Fun ''toString'' \<and>
   snd (proxy_set demo_env family_mounted 0 ''name'' (Fun ''toString'')) = Inl SyntaxError \<and>
   heap (fst (proxy_set demo_env family_mounted 0 ''name'' (Fun ''toString''))) = heap family_mounted \<and>
   counter (fst (proxy_set demo_env family_mounted 0 ''name'' (Fun ''toString''))) = counter family_mounted"
  by (simp add: eval_defs)

lemma family_valueOf_eval:
  "proxy_get demo_env family_read 1 ''valueOf'' = (family_valueOf, Inr (WrapperRef 0))"
  "call_wrapper demo_env family_valueOf 0 [] = (family_valueOf, Inr (Ref 4))"
  "find_proxy family_valueOf 0 = Some child_cached"
  "heap family_valueOf = family_model_heap"
  by (simp_all add: family_valueOf_def family_read_def eval_defs createProxy_def)

lemma family_rewrite_eval:
  "proxy_set demo_env family_valueOf 0 ''children'' (Ref 4) = (family_valueOf, Inr True)"
proof -
  have "js_get demo_env family_model_heap (target child_cached) ''children'' = Ref 4"
    by (simp add: eval_defs)
  then show ?thesis by (simp add: proxy_set_def family_valueOf_eval)
qed


lemma family_read_record:
  "family_read =
     \<lparr>heap = family_model_heap, proxies = [child_cached, \<lparr>target = 4, getMap = Map.empty\<rparr>],
      wrappers = [], counter = 2, hooks = Some family_cells\<rparr>"
  by (simp add: family_read_def eval_defs createProxy_def)


lemma array_proxy_eval:
  "find_proxy family_read 1 = Some array_proxy"
  "getMap array_proxy ''push'' = None"
  "js_get demo_env (heap family_read) (target array_proxy) ''push'' = Fun ''push''"
  by (simp_all add: family_read_record array_proxy_def eval_defs)


lemma shadow_mounted_record:
  "useModel demo_env shadow_start (Ref 0) Null =
     (shadow_mounted,
      Inr (0, \<lparr>model = Ref 3, originalStr = Some (JObj [(''toString'', JObj [])]),
               validator = accept_all (heap shadow_start) Null\<rparr>))"
  "shadow_mounted =
     \<lparr>heap = [PlainObj [(''toString'', Ref 1)], PlainObj [], PlainObj [],
              PlainObj [(''toString'', Ref 2)]],
      proxies = [\<lparr>target = 3, getMap = Map.empty\<rparr>], wrappers = [], counter = 2,
      hooks = hooks shadow_mounted\<rparr>"
  by (simp_all add: shadow_mounted_def shadow_start_def render_defs)

lemma shadow_read_record:
  "proxy_get demo_env shadow_mounted 0 ''toString'' = (shadow_read, Inr (ProxyRef 1))"
  "shadow_read =
     \<lparr>heap = [PlainObj [(''toString'', Ref 1)], PlainObj [], PlainObj [],
              PlainObj [(''toString'', Ref 2)]],
      proxies = [\<lparr>target = 3, getMap = [''toString'' \<mapsto> 1]\<rparr>, \<lparr>target = 2, getMap = Map.empty\<rparr>],
      wrappers = [], counter = 2, hooks = hooks shadow_mounted\<rparr>"
proof -
  show "proxy_get demo_env shadow_mounted 0 ''toString'' = (shadow_read, Inr (ProxyRef 1))"
    unfolding shadow_read_def
    by (subst (1 2) shadow_mounted_record(2)) (simp add: proxy_defs createProxy_def lookup_def Let_def)
  show "shadow_read =
     \<lparr>heap = [PlainObj [(''toString'', Ref 1)], PlainObj [], PlainObj [],
              PlainObj [(''toString'', Ref 2)]],
      proxies = [\<lparr>target = 3, getMap = [''toString'' \<mapsto> 1]\<rparr>, \<lparr>target = 2, getMap = Map.empty\<rparr>],
      wrappers = [], counter = 2, hooks = hooks shadow_mounted\<rparr>"
    unfolding shadow_read_def
    by (subst shadow_mounted_record(2)) (simp add: proxy_defs createProxy_def lookup_def Let_def)
qed

lemma shadow_deleted_record:
  "proxy_delete shadow_read 0 ''toString'' = (shadow_deleted, Inr True)"
  "shadow_deleted =
     \<lparr>heap = [PlainObj [(''toString'', Ref 1)], PlainObj [], PlainObj [], PlainObj []],
      proxies = [\<lparr>target = 3, getMap = [''toString'' \<mapsto> 1]\<rparr>, \<lparr>target = 2, getMap = Map.empty\<rparr>],
      wrappers = [], counter = 2, hooks = hooks shadow_mounted\<rparr>"
proof -
  show "proxy_delete shadow_read 0 ''toString'' = (shadow_deleted, Inr True)"
    unfolding shadow_deleted_def
    by (subst (1 2) shadow_read_record(2))
      (simp add: proxy_delete_def js_delete_def find_proxy_def lookup_def)
  show "shadow_deleted =
     \<lparr>heap = [PlainObj [(''toString'', Ref 1)], PlainObj [], PlainObj [], PlainObj []],
      proxies = [\<lparr>target = 3, getMap = [''toString'' \<mapsto> 1]\<rparr>, \<lparr>target = 2, getMap = Map.empty\<rparr>],
      wrappers = [], counter = 2, hooks = hooks shadow_mounted\<rparr>"
    unfolding shadow_deleted_def
    by (subst shadow_read_record(2))
      (simp add: proxy_delete_def js_delete_def find_proxy_def lookup_def)
qed


lemma family_methods_record:
  "family_methods =
     \<lparr>heap = family_model_heap, proxies = [child_cached, array_proxy],
      wrappers = [(4, Fun ''push''), (4, Fun ''slice'')], counter = 2, hooks = Some family_cells\<rparr>"
  by (simp add: family_methods_def family_push_def family_read_record array_proxy_def eval_defs)

lemma push_eval:
  "JSON_stringify family_model_heap (Ref 4) = Inr children_text"
  "call demo_env ''push'' family_model_heap 4 [Num 7] = (pushed_heap, Inr (Num 2))"
  "JSON_stringify pushed_heap (Ref 4) = Inr (Some (JArr [JObj [(''age'', JNum 3)], JNum 7]))"
  "call demo_env ''slice'' family_model_heap 4 [] = (sliced_heap, Inr (Ref 6))"
  "JSON_stringify sliced_heap (Ref 4) = Inr children_text"
  by (simp_all add: children_text_def pushed_heap_def sliced_heap_def eval_defs)

lemma dirty_eval:
  "isDirty (family_methods\<lparr>heap := family_model_heap\<rparr>) family_control = Inr False"
  "isDirty (family_methods\<lparr>heap := sliced_heap\<rparr>) family_control = Inr False"
  "isDirty (refresh (family_methods\<lparr>heap := pushed_heap\<rparr>)) family_control = Inr True"
  by (simp_all add: isDirty_def pushed_heap_def sliced_heap_def eval_defs)

lemma family_push_record:
  "proxy_get demo_env family_read 1 ''push'' = (family_push, Inr (WrapperRef 0))"
  "proxy_get demo_env family_push 1 ''slice'' = (family_methods, Inr (WrapperRef 1))"
  "find_proxy family_push 1 = Some array_proxy"
  "js_get demo_env (heap family_push) (target array_proxy) ''slice'' = Fun ''slice''"
  "heap family_methods = family_model_heap"
  "target array_proxy = 4"
  "family_methods = apply_events demo_env family_push [Read 1 ''slice'']"
  "family_methods = apply_events demo_env family_methods []"
  by (simp_all add: family_methods_def family_push_def family_read_record array_proxy_def eval_defs)


lemma reachable_apply_events:
  "reachable E st \<Longrightarrow> reachable E (apply_events E st evs)"
  by (induction evs arbitrary: st) (auto intro: reachable.event)

lemma family_reachable:
  "reachable demo_env family_start"
  "reachable demo_env family_mounted"
  "reachable demo_env (reset family_mounted)"
proof -
  show a: "reachable demo_env family_start"
    unfolding family_start_def by (rule reachable.unmounted) (rule wf_family_heap)
  from reachable.event [OF a, of "Render (Ref 0) Null"] family_mount
  show b: "reachable demo_env family_mounted" by simp
  from reachable.event [OF b, of Reset] show "reachable demo_env (reset family_mounted)" by simp
qed


lemma family_renders:
  "useModel demo_env family_mounted (Ref 0) Null = (family_rerendered, Inr (0, family_control))"
  "useModel demo_env (reset family_mounted) (Ref 0) Null = (family_after_reset, Inr (1, family_control2))"
  "useModel demo_env family_mounted (Ref 5) Null = (family_after_swap, Inr (1, family_control2))"
  "heap family_rerendered = heap family_mounted"
  "JSON_stringify (heap family_mounted) (Ref 5) = Inr family_text"
  "JSON_stringify (heap family_mounted) (Ref 0) = Inr family_text"
  by (simp_all add: family_rerendered_def family_after_reset_def family_after_swap_def
      family_control2_def reset_def eval_defs)


lemmas swap_defs = swap_heap_def swap_start_def swap_control_ab_def swap_control_ba_def
  swap_cells_def

lemma swap_mounted_record:
  "useModel demo_env swap_start (Ref 0) Null = (swap_mounted, Inr (0, swap_control_ab))"
  "swap_mounted =
     \<lparr>heap = swap_heap @ [PlainObj [(''a'', Num 1), (''b'', Num 2)]],
      proxies = [\<lparr>target = 2, getMap = Map.empty\<rparr>], wrappers = [], counter = 2,
      hooks = Some swap_cells\<rparr>"
  by (simp_all add: swap_mounted_def swap_defs render_defs)

lemma swap_swapped_record:
  "useModel demo_env swap_mounted (Ref 1) Null = (swap_swapped, Inr (1, swap_control_ba))"
  "heap swap_swapped =
     swap_heap @ [PlainObj [(''a'', Num 1), (''b'', Num 2)], PlainObj [(''b'', Num 2), (''a'', Num 1)]]"
proof -
  show "useModel demo_env swap_mounted (Ref 1) Null = (swap_swapped, Inr (1, swap_control_ba))"
    unfolding swap_swapped_def
    by (subst (1 2) swap_mounted_record(2)) (simp add: swap_defs render_defs)
  show "heap swap_swapped =
     swap_heap @ [PlainObj [(''a'', Num 1), (''b'', Num 2)], PlainObj [(''b'', Num 2), (''a'', Num 1)]]"
    unfolding swap_swapped_def
    by (subst swap_mounted_record(2)) (simp add: swap_defs render_defs)
qed

text \<open>
  C4 as stated fails: the Original \<open>{a: 1, b: 2}\<close> is replaced by \<open>{b: 2, a: 1}\<close>, whose
  serialization differs, and \<open>isDirty()\<close> is false right after the swap.
\<close>

theorem swap_order_counterexample:
  "JSON_stringify swap_heap (Ref 0) = Inr (Some (JObj [(''a'', JNum 1), (''b'', JNum 2)])) \<and>
   JSON_stringify swap_heap (Ref 1) = Inr (Some (JObj [(''b'', JNum 2), (''a'', JNum 1)])) \<and>
   useModel demo_env swap_start (Ref 0) Null = (swap_mounted, Inr (0, swap_control_ab)) \<and>
   useModel demo_env swap_mounted (Ref 1) Null = (swap_swapped, Inr (1, swap_control_ba)) \<and>
   isDirty swap_swapped swap_control_ba = Inr False"
proof -
  have "JSON_stringify swap_heap (Ref 0) = Inr (Some (JObj [(''a'', JNum 1), (''b'', JNum 2)]))"
    "JSON_stringify swap_heap (Ref 1) = Inr (Some (JObj [(''b'', JNum 2), (''a'', JNum 1)]))"
    by (simp_all add: swap_defs render_defs)
  moreover have "isDirty swap_swapped swap_control_ba = Inr False"
    by (simp add: isDirty_def swap_swapped_record(2)) (simp add: swap_defs render_defs)
  ultimately show ?thesis using swap_mounted_record(1) swap_swapped_record(1) by blast
qed

lemma swap_reachable: "reachable demo_env swap_mounted"
proof -
  have "wf_heap swap_heap"
    by (simp add: swap_defs wf_heap_def key_ok_def key_before_def array_index_def digit_val_def)
  then have "reachable demo_env swap_start"
    unfolding swap_start_def by (rule reachable.unmounted)
  from reachable.event [OF this, of "Render (Ref 0) Null"] swap_mounted_record(1)
  show ?thesis by simp
qed

text \<open>
  The swap of the two orderings: the snapshot is re-derived from the new Original and
  is clean.
\<close>

theorem swap_rederives_clean_witness:
  "wf_env demo_env \<and> reachable demo_env swap_mounted \<and>
   hooks swap_mounted = Some swap_cells \<and> fst (originalStr_memo swap_cells) \<noteq> Ref 1 \<and>
   useModel demo_env swap_mounted (Ref 1) Null = (swap_swapped, Inr (1, swap_control_ba)) \<and>
   isDirty swap_swapped swap_control_ba = Inr False \<and>
   JSON_stringify (heap swap_swapped) (model swap_control_ba) = Inr (originalStr swap_control_ba)"
proof -
  have h: "hooks swap_mounted = Some swap_cells" by (subst swap_mounted_record(2)) simp
  have n: "fst (originalStr_memo swap_cells) \<noteq> Ref 1" by (simp add: swap_cells_def)
  note t = swap_rederives_clean [OF wf_demo_env swap_reachable h n swap_swapped_record(1)]
  from t have "isDirty swap_swapped swap_control_ba = Inr False"
    and "JSON_stringify (heap swap_swapped) (model swap_control_ba) = Inr (originalStr swap_control_ba)"
    by blast+
  with wf_demo_env swap_reachable h n swap_swapped_record(1) show ?thesis by blast
qed

lemma family_edited_eval:
  "isDirty family_edited family_control = Inr True"
  "snd (proxy_get demo_env family_edited 1 ''name'') = Inr (Plain (Str ''Jo''))"
  "useModel demo_env (reset family_edited) (Ref 0) Null = (family_restored, Inr (2, family_control2))"
  "snd (proxy_get demo_env family_restored 2 ''name'') = Inr (Plain (Str ''Jochen''))"
  "hooks family_edited = Some family_edited_cells"
  "JSON_stringify (heap family_restored) (Ref 0) = Inr family_text"
  by (simp_all add: family_edited_def family_edits_def family_restored_def family_control2_def
      family_edited_cells_def isDirty_def reset_def eval_defs)


end
